theory Spec2Isabelle
  imports Complex_Main "HOL-Library.Word" "HOL-Library.Multiset"
begin

unbundle bit_operations_syntax

section \<open>Numbers and arrays of the two implementations\<close>

text \<open>
  The repository holds the same domino generator twice: a TypeScript library
  (\<^verbatim>\<open>dominoFactory.ts\<close>, \<^verbatim>\<open>pdf.ts\<close>) and a C\# library (\<^verbatim>\<open>DominoFactory.cs\<close>,
  \<^verbatim>\<open>Domino.cs\<close>). Definitions named in camelCase embed the TypeScript functions, the ones
  in PascalCase the C\# functions.

  Integers of both languages are \<^typ>\<open>int\<close> here. Every bitwise operation of the
  enumerator works on values between 0 and \<open>0xffff\<close>, far inside the 32-bit range on which
  JavaScript and C\# compute them, so no wrap-around can occur: the payload halves are masked with \<open>0x3f\<close>, a
  column is at most \<open>0xff\<close> and the assembled value at most \<open>0xffff\<close>. Lengths measured in inches are
  \<^typ>\<open>real\<close>: the arithmetic of the layout is exact here, where the source rounds to
  doubles.

  A JavaScript array is a list of optional values: \<open>None\<close> is a hole, read as
  \<^verbatim>\<open>undefined\<close>. Reading outside the array gives \<^verbatim>\<open>undefined\<close>, writing behind its
  end extends it with holes.
\<close>

definition js_get :: "'a option list \<Rightarrow> int \<Rightarrow> 'a option" where
  "js_get xs i = (if 0 \<le> i \<and> nat i < length xs then xs ! nat i else None)"

definition js_set :: "'a option list \<Rightarrow> int \<Rightarrow> 'a option \<Rightarrow> 'a option list" where
  "js_set xs i v =
     (if i < 0 then xs
      else if nat i < length xs then xs[nat i := v]
      else xs @ replicate (nat i - length xs) None @ [v])"

text \<open>
  A C\# array or list has a fixed length; an access outside it raises
  \<^verbatim>\<open>IndexOutOfRangeException\<close> (for a list it is the \<^verbatim>\<open>ArgumentOutOfRangeException\<close>;
  both are \<open>IndexOutOfRangeException\<close> here).
\<close>

datatype cs_exception =
    IndexOutOfRangeException
  | ArgumentOutOfRangeException
  | InvalidOperationException
  | DivideByZeroException
  | OverflowException

definition cs_get :: "'a list \<Rightarrow> int \<Rightarrow> cs_exception + 'a" where
  "cs_get xs i = (if 0 \<le> i \<and> nat i < length xs then Inr (xs ! nat i) else Inl IndexOutOfRangeException)"

definition cs_set :: "'a list \<Rightarrow> int \<Rightarrow> 'a \<Rightarrow> cs_exception + 'a list" where
  "cs_set xs i v = (if 0 \<le> i \<and> nat i < length xs then Inr (xs[nat i := v]) else Inl IndexOutOfRangeException)"


section \<open>The valid-code enumerator\<close>

subsection \<open>Constants\<close>

definition COLUMN_MASK :: int where
  "COLUMN_MASK = 0xff"

definition CONSTANT_PIPS_MASK :: int where
  "CONSTANT_PIPS_MASK = 0b1000000110000001"

definition DATA_BITS_MASK :: int where
  "DATA_BITS_MASK = NOT CONSTANT_PIPS_MASK AND 0xffff"

subsection \<open>The table of reversed bytes\<close>

text \<open>
  \<^verbatim>\<open>for (let b = 0; b < 8; b++) { r = (r << 1) | (v & 1); v >>= 1; }\<close>
\<close>

function reverse8_loop :: "int \<Rightarrow> int \<Rightarrow> int \<Rightarrow> int" where
  "reverse8_loop b v r =
     (if b < 8 then reverse8_loop (b + 1) (drop_bit 1 v) (push_bit 1 r OR (v AND 1)) else r)"
  by pat_completeness auto
termination
  by (relation "measure (\<lambda>(b, v, r). nat (8 - b))") auto

declare reverse8_loop.simps [simp del]

text \<open>
  TypeScript: \<^verbatim>\<open>new Array(256)\<close> is 256 holes; the loop over \<open>i\<close> stores \<open>table[i] = r\<close>.
\<close>

function createReverseTable_loop :: "int \<Rightarrow> int option list \<Rightarrow> int option list" where
  "createReverseTable_loop i table =
     (if i < 256
      then createReverseTable_loop (i + 1) (js_set table i (Some (reverse8_loop 0 i 0)))
      else table)"
  by pat_completeness auto
termination
  by (relation "measure (\<lambda>(i, table). nat (256 - i))") auto

declare createReverseTable_loop.simps [simp del]

definition createReverseTable :: "int option list" where
  "createReverseTable = createReverseTable_loop 0 (replicate 256 None)"

definition REVERSE8 :: "int option list" where
  "REVERSE8 = createReverseTable"

text \<open>
  C\#: \<^verbatim>\<open>new byte[256]\<close> is 256 zero bytes; the loop stores \<open>t[i] = (byte)r\<close>, the low
  eight bits of \<open>r\<close>.
\<close>

function CreateReverseTable_loop :: "int \<Rightarrow> int list \<Rightarrow> cs_exception + int list" where
  "CreateReverseTable_loop i t =
     (if i < 256
      then (case cs_set t i (take_bit 8 (reverse8_loop 0 i 0)) of
              Inl e \<Rightarrow> Inl e
            | Inr t' \<Rightarrow> CreateReverseTable_loop (i + 1) t')
      else Inr t)"
  by pat_completeness auto
termination
  by (relation "measure (\<lambda>(i, t). nat (256 - i))") auto

declare CreateReverseTable_loop.simps [simp del]

definition CreateReverseTable :: "cs_exception + int list" where
  "CreateReverseTable = CreateReverseTable_loop 0 (replicate 256 0)"

subsection \<open>Population count\<close>

text \<open>
  TypeScript \<^verbatim>\<open>popCount12\<close>: \<open>x = n & 0xfff\<close> lies between 0 and 4095, so it is a
  natural number here; \<^verbatim>\<open>while (x) { x &= x - 1; c++; }\<close> clears the lowest set bit in
  each round.
\<close>

lemma and_pred_less: "0 < x \<Longrightarrow> x AND (x - Suc 0) < (x::nat)"
proof -
  assume "0 < x"
  have "int x AND int (x - Suc 0) \<le> int (x - Suc 0)"
    by (rule AND_upper2) simp
  then have "x AND (x - Suc 0) \<le> x - Suc 0"
    by (simp add: and_nat_def nat_le_iff)
  with \<open>0 < x\<close> show ?thesis by simp
qed

function popCount12_loop :: "nat \<Rightarrow> int \<Rightarrow> int" where
  "popCount12_loop x c = (if x \<noteq> 0 then popCount12_loop (x AND (x - 1)) (c + 1) else c)"
  by pat_completeness auto
termination
  by (relation "measure (\<lambda>(x, c). x)") (simp_all add: and_pred_less)

declare popCount12_loop.simps [simp del]

definition popCount12 :: "int \<Rightarrow> int" where
  "popCount12 n = popCount12_loop (nat (n AND 0xfff)) 0"

text \<open>
  C\# calls \<^verbatim>\<open>BitOperations.PopCount((uint)dataBits)\<close> of the .NET library, which is
  documented to return the number of bits set in its 32-bit argument. The cast to
  \<^verbatim>\<open>uint\<close> keeps the low 32 bits.
\<close>

definition PopCount :: "int \<Rightarrow> int" where
  "PopCount u = int (length (filter (bit u) [0..<32]))"

subsection \<open>Building one candidate\<close>

text \<open>
  The locals of the loop body, as functions of \<open>dataBits\<close>. They are the same in both
  sources, except that TypeScript masks the assembled value with \<open>0xffff\<close>.
\<close>

definition col0Data :: "int \<Rightarrow> int" where
  "col0Data dataBits = push_bit 1 (dataBits AND 0x3f)"

definition col1Data :: "int \<Rightarrow> int" where
  "col1Data dataBits = push_bit 1 (drop_bit 6 dataBits AND 0x3f)"

definition col0 :: "int \<Rightarrow> int" where
  "col0 dataBits = col0Data dataBits OR 0b10000001"

definition col1 :: "int \<Rightarrow> int" where
  "col1 dataBits = col1Data dataBits OR 0b10000001"

definition value_ts :: "int \<Rightarrow> int" where
  "value_ts dataBits = (col0 dataBits OR push_bit 8 (col1 dataBits)) AND 0xffff"

definition value_cs :: "int \<Rightarrow> int" where
  "value_cs dataBits = col0 dataBits OR push_bit 8 (col1 dataBits)"

subsection \<open>TypeScript: \<^verbatim>\<open>buildValidDominoesList\<close>\<close>

text \<open>
  One round of the loop over \<open>dataBits\<close>; each \<^verbatim>\<open>continue\<close> leaves the set \<open>seen\<close> and
  the list as they are.
\<close>

definition buildStep :: "int \<Rightarrow> int set \<times> int list \<Rightarrow> int set \<times> int list" where
  "buildStep dataBits st =
     (case st of (seen, list) \<Rightarrow>
        if popCount12 dataBits \<noteq> 6 then (seen, list)
        else if js_get REVERSE8 (col0 dataBits) = Some (col1 dataBits) then (seen, list)
        else if (value_ts dataBits AND CONSTANT_PIPS_MASK) AND 0xffff \<noteq> CONSTANT_PIPS_MASK
          then (seen, list)
        else if (value_ts dataBits AND DATA_BITS_MASK) AND 0xffff \<noteq> (value_ts dataBits AND DATA_BITS_MASK)
          then (seen, list)
        else if value_ts dataBits \<notin> seen
          then (insert (value_ts dataBits) seen, list @ [value_ts dataBits])
        else (seen, list))"

function buildLoop :: "int \<Rightarrow> int set \<times> int list \<Rightarrow> int set \<times> int list" where
  "buildLoop dataBits st =
     (if dataBits < push_bit 12 1 then buildLoop (dataBits + 1) (buildStep dataBits st) else st)"
  by pat_completeness auto
termination
  by (relation "measure (\<lambda>(dataBits, st). nat (push_bit 12 1 - dataBits))") auto

declare buildLoop.simps [simp del]

definition buildValidDominoesList :: "int list" where
  "buildValidDominoesList = snd (buildLoop 0 ({}, []))"

definition VALID_DOMINOES :: "int list" where
  "VALID_DOMINOES = buildValidDominoesList"

subsection \<open>C\#: \<^verbatim>\<open>BuildValidDominoesList\<close>\<close>

text \<open>
  The C\# loop has no sanity checks after the palindrome test. \<open>Reverse8[col0]\<close> is an
  array access that raises outside \<open>0..255\<close>; \<open>uniqueDominoes.Add(value)\<close> is true when the
  value was not in the set yet.
\<close>

definition BuildStep :: "int list \<Rightarrow> int \<Rightarrow> int set \<times> int list \<Rightarrow> cs_exception + int set \<times> int list" where
  "BuildStep Reverse8 dataBits st =
     (case st of (uniqueDominoes, validDominoes) \<Rightarrow>
        if PopCount (take_bit 32 dataBits) \<noteq> 6 then Inr (uniqueDominoes, validDominoes)
        else (case cs_get Reverse8 (col0 dataBits) of
                Inl e \<Rightarrow> Inl e
              | Inr r \<Rightarrow>
                  if r = col1 dataBits then Inr (uniqueDominoes, validDominoes)
                  else if value_cs dataBits \<notin> uniqueDominoes
                    then Inr (insert (value_cs dataBits) uniqueDominoes, validDominoes @ [value_cs dataBits])
                  else Inr (uniqueDominoes, validDominoes)))"

function BuildLoop :: "int list \<Rightarrow> int \<Rightarrow> int set \<times> int list \<Rightarrow> cs_exception + int set \<times> int list" where
  "BuildLoop Reverse8 dataBits st =
     (if dataBits < push_bit 12 1
      then (case BuildStep Reverse8 dataBits st of
              Inl e \<Rightarrow> Inl e
            | Inr st' \<Rightarrow> BuildLoop Reverse8 (dataBits + 1) st')
      else Inr st)"
  by pat_completeness auto
termination
  by (relation "measure (\<lambda>(Reverse8, dataBits, st). nat (push_bit 12 1 - dataBits))") auto

declare BuildLoop.simps [simp del]

text \<open>
  The static initialisers run in order: \<open>Reverse8\<close> first, then \<open>ValidDominoes\<close>.
\<close>

definition BuildValidDominoesList :: "cs_exception + int list" where
  "BuildValidDominoesList =
     (case CreateReverseTable of
        Inl e \<Rightarrow> Inl e
      | Inr Reverse8 \<Rightarrow>
          (case BuildLoop Reverse8 0 ({}, []) of
             Inl e \<Rightarrow> Inl e
           | Inr st \<Rightarrow> Inr (snd st)))"

section \<open>The unique sampler\<close>

subsection \<open>Random numbers\<close>

text \<open>
  One draw of the TypeScript \<^verbatim>\<open>randomInt\<close> is either the 32-bit word that
  \<^verbatim>\<open>crypto.getRandomValues\<close> stored, or the number that \<^verbatim>\<open>Math.random()\<close> returned. The
  source of randomness is a sequence of draws; the draw number \<open>k\<close> is used by the
  \<open>k\<close>-th call. \<^verbatim>\<open>Math.random()\<close> is specified to return a number \<open>u\<close> with
  \<open>0 \<le> u < 1\<close>.
\<close>

datatype draw = CryptoWord "32 word" | MathRandom real

definition unit_draw :: "draw \<Rightarrow> bool" where
  "unit_draw d = (case d of CryptoWord w \<Rightarrow> True | MathRandom u \<Rightarrow> 0 \<le> u \<and> u < 1)"

datatype js_error =
    InvalidRandomIntRange
  | InsufficientDominoes int nat
  | InvalidArrayLength
  | NoValidDominoes

definition randomInt :: "int \<Rightarrow> int \<Rightarrow> draw \<Rightarrow> js_error + int" where
  "randomInt minInclusive maxExclusive d =
     (let span = maxExclusive - minInclusive in
      if span \<le> 0 then Inl InvalidRandomIntRange
      else (case d of
              CryptoWord w \<Rightarrow> Inr (minInclusive + uint w mod span)
            | MathRandom u \<Rightarrow> Inr (minInclusive + \<lfloor>u * of_int span\<rfloor>)))"

text \<open>
  C\#: \<^verbatim>\<open>Random.Shared.Next(minValue, maxValue)\<close> of the .NET library is documented to
  return an integer \<open>r\<close> with \<open>minValue \<le> r < maxValue\<close>, \<open>minValue\<close> itself when the two
  are equal, and to raise \<^verbatim>\<open>ArgumentOutOfRangeException\<close> when \<open>minValue > maxValue\<close>. The
  natural number \<open>raw\<close> selects the value in the range.
\<close>

definition Next :: "int \<Rightarrow> int \<Rightarrow> nat \<Rightarrow> cs_exception + int" where
  "Next minValue maxValue raw =
     (if minValue > maxValue then Inl ArgumentOutOfRangeException
      else if minValue = maxValue then Inr minValue
      else Inr (minValue + int raw mod (maxValue - minValue)))"

subsection \<open>TypeScript: \<^verbatim>\<open>generateRandomUniqueDominoes\<close>\<close>

text \<open>
  The loop writes \<open>result[i] = available[randomIndex]\<close> and then
  \<open>available[randomIndex] = available[i]\<close>. \<open>available\<close> is a copy (\<^verbatim>\<open>slice()\<close>) of
  \<^verbatim>\<open>VALID_DOMINOES\<close>, \<open>result\<close> is \<^verbatim>\<open>new Array(count)\<close>: \<open>count\<close> holes, and a
  \<^verbatim>\<open>RangeError\<close> for a negative count. The parameter \<open>count\<close> of the source is \<open>cnt\<close>
  here.
\<close>

function generate_loop ::
  "(nat \<Rightarrow> draw) \<Rightarrow> int \<Rightarrow> int \<Rightarrow> int option list \<Rightarrow> int option list \<Rightarrow> js_error + int option list" where
  "generate_loop rs cnt i available result =
     (if i < cnt then
        (case randomInt i (int (length available)) (rs (nat i)) of
           Inl e \<Rightarrow> Inl e
         | Inr randomIndex \<Rightarrow>
             generate_loop rs cnt (i + 1)
               (js_set available randomIndex (js_get available i))
               (js_set result i (js_get available randomIndex)))
      else Inr result)"
  by pat_completeness auto
termination
  by (relation "measure (\<lambda>(rs, cnt, i, available, result). nat (cnt - i))") auto

declare generate_loop.simps [simp del]

definition generateRandomUniqueDominoes :: "(nat \<Rightarrow> draw) \<Rightarrow> int \<Rightarrow> js_error + int option list" where
  "generateRandomUniqueDominoes rs cnt =
     (let available = map Some VALID_DOMINOES in
      if cnt > int (length available) then Inl (InsufficientDominoes cnt (length available))
      else if cnt < 0 then Inl InvalidArrayLength
      else generate_loop rs cnt 0 available (replicate (nat cnt) None))"

subsection \<open>C\#: \<^verbatim>\<open>GenerateRandomUniqueDominoes\<close>\<close>

text \<open>
  \<open>availableDominoes\<close> is a new list with the elements of \<^verbatim>\<open>ValidDominoes\<close>, \<open>result\<close> is
  \<^verbatim>\<open>new int[count]\<close>: \<open>count\<close> zeros, and an \<^verbatim>\<open>OverflowException\<close> for a negative count.
  The list of valid dominoes is the parameter \<open>valid\<close>.
\<close>

function Generate_loop ::
  "(nat \<Rightarrow> nat) \<Rightarrow> int \<Rightarrow> int \<Rightarrow> int list \<Rightarrow> int list \<Rightarrow> cs_exception + int list" where
  "Generate_loop raws cnt i availableDominoes result =
     (if i < cnt then
        (case Next i (int (length availableDominoes)) (raws (nat i)) of
           Inl e \<Rightarrow> Inl e
         | Inr randomIndex \<Rightarrow>
             (case cs_get availableDominoes randomIndex of
                Inl e \<Rightarrow> Inl e
              | Inr picked \<Rightarrow>
                  (case cs_set result i picked of
                     Inl e \<Rightarrow> Inl e
                   | Inr result' \<Rightarrow>
                       (case cs_get availableDominoes i of
                          Inl e \<Rightarrow> Inl e
                        | Inr moved \<Rightarrow>
                            (case cs_set availableDominoes randomIndex moved of
                               Inl e \<Rightarrow> Inl e
                             | Inr available' \<Rightarrow>
                                 Generate_loop raws cnt (i + 1) available' result')))))
      else Inr result)"
  by pat_completeness auto
termination
  by (relation "measure (\<lambda>(raws, cnt, i, availableDominoes, result). nat (cnt - i))") auto

declare Generate_loop.simps [simp del]

definition GenerateRandomUniqueDominoes ::
  "int list \<Rightarrow> (nat \<Rightarrow> nat) \<Rightarrow> int \<Rightarrow> cs_exception + int list" where
  "GenerateRandomUniqueDominoes valid raws cnt =
     (if cnt > int (length valid) then Inl InvalidOperationException
      else if cnt < 0 then Inl OverflowException
      else Generate_loop raws cnt 0 valid (replicate (nat cnt) 0))"

subsection \<open>TypeScript: \<^verbatim>\<open>pickRandomDominoes\<close> of \<^verbatim>\<open>pdf.ts\<close> and \<^verbatim>\<open>preview.ts\<close>\<close>

text \<open>
  The inner loop draws with \<^verbatim>\<open>Math.random()\<close> only and appends to \<open>result\<close>; the number
  of the draw is the number of values appended so far.
\<close>

function pick_loop ::
  "(nat \<Rightarrow> real) \<Rightarrow> int \<Rightarrow> int \<Rightarrow> int option list \<Rightarrow> int option list \<Rightarrow> int option list" where
  "pick_loop us take_n i available result =
     (if i < take_n then
        (let j = i + \<lfloor>us (length result) * of_int (int (length available) - i)\<rfloor>
         in pick_loop us take_n (i + 1)
              (js_set available j (js_get available i))
              (result @ [js_get available j]))
      else result)"
  by pat_completeness auto
termination
  by (relation "measure (\<lambda>(us, take_n, i, available, result). nat (take_n - i))") auto

declare pick_loop.simps [simp del]

text \<open>
  The outer loop \<^verbatim>\<open>while (remaining > 0)\<close> takes a fresh copy of \<open>source\<close> in every
  round. It would not end on an empty \<open>source\<close>, so not returning is the value \<open>None\<close>.
\<close>

partial_function (option) pick_rounds ::
  "(nat \<Rightarrow> real) \<Rightarrow> int option list \<Rightarrow> int \<Rightarrow> int option list \<Rightarrow> int option list option" where
  "pick_rounds us source remaining result =
     (if remaining > 0 then
        (let take_n = min remaining (int (length source))
         in pick_rounds us source (remaining - take_n) (pick_loop us take_n 0 source result))
      else Some result)"

definition pickRandomDominoes ::
  "(nat \<Rightarrow> real) \<Rightarrow> int option list \<Rightarrow> int \<Rightarrow> (js_error + int option list) option" where
  "pickRandomDominoes us source cnt =
     (if length source = 0 then Some (Inl NoValidDominoes)
      else if cnt \<le> 0 then Some (Inr [])
      else map_option Inr (pick_rounds us source cnt []))"

section \<open>Measurements, page setups and the tile\<close>

text \<open>
  A JavaScript number is a real number, \<open>Infinity\<close>, \<open>-Infinity\<close> or \<open>NaN\<close>. The four
  operations the layout uses follow the IEEE rules for these special values; on finite
  numbers they are exact here (no rounding and no overflow). The sign of a zero is not
  kept: every divisor of the layout is a sum, and a sum of finite numbers that is zero
  is \<open>+0\<close>.
\<close>

datatype number = Num real | PosInfinity | NegInfinity | NaN

fun num_sub :: "number \<Rightarrow> number \<Rightarrow> number" where
  "num_sub (Num a) (Num b) = Num (a - b)"
| "num_sub NaN y = NaN"
| "num_sub x NaN = NaN"
| "num_sub PosInfinity PosInfinity = NaN"
| "num_sub NegInfinity NegInfinity = NaN"
| "num_sub PosInfinity y = PosInfinity"
| "num_sub NegInfinity y = NegInfinity"
| "num_sub (Num a) PosInfinity = NegInfinity"
| "num_sub (Num a) NegInfinity = PosInfinity"

fun num_div :: "number \<Rightarrow> number \<Rightarrow> number" where
  "num_div (Num a) (Num b) =
     (if b \<noteq> 0 then Num (a / b)
      else if 0 < a then PosInfinity else if a < 0 then NegInfinity else NaN)"
| "num_div NaN y = NaN"
| "num_div x NaN = NaN"
| "num_div (Num a) y = Num 0"
| "num_div PosInfinity (Num b) = (if 0 \<le> b then PosInfinity else NegInfinity)"
| "num_div NegInfinity (Num b) = (if 0 \<le> b then NegInfinity else PosInfinity)"
| "num_div x y = NaN"

fun num_mul :: "number \<Rightarrow> number \<Rightarrow> number" where
  "num_mul (Num a) (Num b) = Num (a * b)"
| "num_mul NaN y = NaN"
| "num_mul x NaN = NaN"
| "num_mul PosInfinity (Num b) = (if 0 < b then PosInfinity else if b < 0 then NegInfinity else NaN)"
| "num_mul NegInfinity (Num b) = (if 0 < b then NegInfinity else if b < 0 then PosInfinity else NaN)"
| "num_mul (Num a) PosInfinity = (if 0 < a then PosInfinity else if a < 0 then NegInfinity else NaN)"
| "num_mul (Num a) NegInfinity = (if 0 < a then NegInfinity else if a < 0 then PosInfinity else NaN)"
| "num_mul PosInfinity PosInfinity = PosInfinity"
| "num_mul NegInfinity NegInfinity = PosInfinity"
| "num_mul PosInfinity NegInfinity = NegInfinity"
| "num_mul NegInfinity PosInfinity = NegInfinity"

fun num_floor :: "number \<Rightarrow> number" where
  "num_floor (Num a) = Num (of_int \<lfloor>a\<rfloor>)"
| "num_floor x = x"

text \<open>\<open>x >= y\<close> on JavaScript numbers: false when either side is \<open>NaN\<close>.\<close>

fun num_ge :: "number \<Rightarrow> number \<Rightarrow> bool" where
  "num_ge (Num a) (Num b) \<longleftrightarrow> a \<ge> b"
| "num_ge NaN y \<longleftrightarrow> False"
| "num_ge x NaN \<longleftrightarrow> False"
| "num_ge PosInfinity y \<longleftrightarrow> True"
| "num_ge x NegInfinity \<longleftrightarrow> True"
| "num_ge x y \<longleftrightarrow> False"

subsection \<open>\<^verbatim>\<open>Measurement\<close> and \<^verbatim>\<open>PageSetup\<close>\<close>

text \<open>
  The constructor of \<^verbatim>\<open>Measurement\<close> refuses a value that is not finite, so the value of
  a measurement is a real number.
\<close>

datatype UnitOfMeasure = Inches | Millimeters

record Measurement =
  mvalue :: real
  munit :: UnitOfMeasure

definition MILLIMETERS_PER_INCH :: real where
  "MILLIMETERS_PER_INCH = 25.4"

definition toInches :: "Measurement \<Rightarrow> real" where
  "toInches m = (if munit m = Inches then mvalue m else mvalue m / MILLIMETERS_PER_INCH)"

definition inches :: "real \<Rightarrow> Measurement" where
  "inches v = \<lparr>mvalue = v, munit = Inches\<rparr>"

definition millimeters :: "real \<Rightarrow> Measurement" where
  "millimeters v = \<lparr>mvalue = v, munit = Millimeters\<rparr>"

record PageSetup =
  width :: Measurement
  height :: "Measurement option"
  margin :: "Measurement option"

definition letterPortrait :: "Measurement option \<Rightarrow> PageSetup" where
  "letterPortrait m =
     \<lparr>width = inches 8.5, height = Some (inches 11),
      margin = Some (case m of Some x \<Rightarrow> x | None \<Rightarrow> inches 0.25)\<rparr>"

definition continuousLabel :: "Measurement \<Rightarrow> Measurement option \<Rightarrow> PageSetup" where
  "continuousLabel w m =
     \<lparr>width = w, height = None,
      margin = Some (case m of Some x \<Rightarrow> x | None \<Rightarrow> inches 0.125)\<rparr>"

subsection \<open>The constants of \<^verbatim>\<open>Domino\<close>\<close>

definition DominoMargin :: real where
  "DominoMargin = 0.125"

definition PIPS_PER_COLUMN :: real where
  "PIPS_PER_COLUMN = 8"

definition COLUMNS_PER_DOMINO :: real where
  "COLUMNS_PER_DOMINO = 2"

definition PIP_MARGIN :: real where
  "PIP_MARGIN = 0.1"

definition PIP_DIAMETER :: real where
  "PIP_DIAMETER = 0.1"

definition DominoHeight :: real where
  "DominoHeight = PIP_DIAMETER * PIPS_PER_COLUMN + PIP_MARGIN * (PIPS_PER_COLUMN + 1)"

definition DominoWidth :: real where
  "DominoWidth = PIP_DIAMETER * COLUMNS_PER_DOMINO + PIP_MARGIN * (COLUMNS_PER_DOMINO + 1)"


section \<open>The layout\<close>

subsection \<open>TypeScript: \<^verbatim>\<open>DominoFactory.calculatePageLayout\<close>\<close>

record DominoFactory =
  stripSpacing :: Measurement
  pageSetup :: PageSetup

text \<open>The constructor, with its defaults for arguments left out.\<close>

definition new_DominoFactory :: "Measurement option \<Rightarrow> PageSetup option \<Rightarrow> DominoFactory" where
  "new_DominoFactory s p =
     \<lparr>stripSpacing = (case s of Some x \<Rightarrow> x | None \<Rightarrow> inches 0.125),
      pageSetup = (case p of Some x \<Rightarrow> x | None \<Rightarrow> letterPortrait (Some (inches 0.25)))\<rparr>"

record PageLayout =
  dominoesPerRow :: number
  dominoesPerPage :: number

text \<open>The locals of \<^verbatim>\<open>calculatePageLayout\<close>, in the order of the source.\<close>

definition marginInches :: "DominoFactory \<Rightarrow> real" where
  "marginInches f = (case margin (pageSetup f) of Some m \<Rightarrow> toInches m | None \<Rightarrow> 0)"

definition heightInches :: "DominoFactory \<Rightarrow> number" where
  "heightInches f = (case height (pageSetup f) of Some h \<Rightarrow> Num (toInches h) | None \<Rightarrow> PosInfinity)"

definition stripSpacingInches :: "DominoFactory \<Rightarrow> real" where
  "stripSpacingInches f = toInches (stripSpacing f)"

definition printableWidth :: "DominoFactory \<Rightarrow> real" where
  "printableWidth f = toInches (width (pageSetup f)) - 2 * marginInches f"

definition printableHeight :: "DominoFactory \<Rightarrow> number" where
  "printableHeight f = num_sub (heightInches f) (Num (2 * marginInches f))"

definition dominoesPerColumn_of :: "DominoFactory \<Rightarrow> number" where
  "dominoesPerColumn_of f =
     num_floor (num_div (num_sub (printableHeight f) (Num DominoMargin)) (Num (DominoHeight + DominoMargin)))"

definition dominoesPerRow_of :: "DominoFactory \<Rightarrow> number" where
  "dominoesPerRow_of f =
     num_floor (num_div (Num (printableWidth f)) (Num (DominoWidth + stripSpacingInches f)))"

definition calculatePageLayout :: "DominoFactory \<Rightarrow> PageLayout" where
  "calculatePageLayout f =
     \<lparr>dominoesPerRow = dominoesPerRow_of f,
      dominoesPerPage = num_mul (dominoesPerColumn_of f) (dominoesPerRow_of f)\<rparr>"

subsection \<open>C\#: \<^verbatim>\<open>DominoFactory.CalculatePageLayout\<close>\<close>

text \<open>
  C\# computes in doubles and casts the floors to \<^verbatim>\<open>int\<close>. The cast of a double outside
  the range of \<^verbatim>\<open>int\<close> (also of an infinity or \<open>NaN\<close>) is unspecified in an unchecked
  context: its result is the parameter \<open>ovf\<close>. The product of the two counts wraps around
  in 32 bits. A page setup without a height counts as \<^verbatim>\<open>double.MaxValue\<close> high.
\<close>

definition DOUBLE_MAX :: real where
  "DOUBLE_MAX = (2 - 1 / 2 ^ 52) * 2 ^ 1023"

definition cs_int :: "(number \<Rightarrow> int) \<Rightarrow> number \<Rightarrow> int" where
  "cs_int ovf x =
     (case x of
        Num a \<Rightarrow> if - (2 ^ 31) \<le> \<lfloor>a\<rfloor> \<and> \<lfloor>a\<rfloor> < 2 ^ 31 then \<lfloor>a\<rfloor> else ovf x
      | _ \<Rightarrow> ovf x)"

definition wrap32 :: "int \<Rightarrow> int" where
  "wrap32 k = signed_take_bit 31 k"

definition HeightInches :: "DominoFactory \<Rightarrow> real" where
  "HeightInches f = (case height (pageSetup f) of Some h \<Rightarrow> toInches h | None \<Rightarrow> DOUBLE_MAX)"

definition DominoesPerColumn_of :: "(number \<Rightarrow> int) \<Rightarrow> DominoFactory \<Rightarrow> int" where
  "DominoesPerColumn_of ovf f =
     cs_int ovf (num_floor (num_div (Num (HeightInches f - 2 * marginInches f - DominoMargin))
                                    (Num (DominoHeight + DominoMargin))))"

definition DominoesPerRow_of :: "(number \<Rightarrow> int) \<Rightarrow> DominoFactory \<Rightarrow> int" where
  "DominoesPerRow_of ovf f =
     cs_int ovf (num_floor (num_div (Num (printableWidth f)) (Num (DominoWidth + stripSpacingInches f))))"

definition CalculatePageLayout :: "(number \<Rightarrow> int) \<Rightarrow> DominoFactory \<Rightarrow> int \<times> int" where
  "CalculatePageLayout ovf f =
     (DominoesPerRow_of ovf f, wrap32 (DominoesPerColumn_of ovf f * DominoesPerRow_of ovf f))"

subsection \<open>The horizontal offset\<close>



section \<open>Pagination\<close>

subsection \<open>C\#: the loops of \<^verbatim>\<open>GeneratePdf\<close>\<close>

text \<open>
  Integer division and remainder of C\# truncate towards zero and raise
  \<^verbatim>\<open>DivideByZeroException\<close> on a zero divisor.
\<close>

definition cs_div :: "int \<Rightarrow> int \<Rightarrow> cs_exception + int" where
  "cs_div a b = (if b = 0 then Inl DivideByZeroException else Inr (sgn a * sgn b * (\<bar>a\<bar> div \<bar>b\<bar>)))"

definition cs_rem :: "int \<Rightarrow> int \<Rightarrow> cs_exception + int" where
  "cs_rem a b = (if b = 0 then Inl DivideByZeroException else Inr (sgn a * (\<bar>a\<bar> mod \<bar>b\<bar>)))"

text \<open>
  In the loops below \<open>perRow\<close> and \<open>perPage\<close> stand for the variables
  \<open>dominoesPerRow\<close> and \<open>dominoesPerPage\<close> of the sources.

  What \<^verbatim>\<open>RenderDominoToPdf\<close> is called with: the code of the tile and its column \<open>ix\<close>
  and row \<open>iy\<close> on the page. A page is the list of its tiles in the order they are
  drawn, a document the list of its pages.
\<close>

record tile =
  tile_code :: int
  tile_ix :: int
  tile_iy :: int

text \<open>
  The inner loop \<^verbatim>\<open>for (int i = 0; i < dominoesThisPage; i++)\<close>: it reads
  \<open>dominoValues[currentIndex + i]\<close>, then computes \<open>i % dominoesPerRow\<close> and
  \<open>i / dominoesPerRow\<close>.
\<close>

function RenderPage ::
  "int list \<Rightarrow> int \<Rightarrow> int \<Rightarrow> int \<Rightarrow> int \<Rightarrow> tile list \<Rightarrow> cs_exception + tile list" where
  "RenderPage dominoValues perRow currentIndex dominoesThisPage i page =
     (if i < dominoesThisPage then
        (case cs_get dominoValues (currentIndex + i) of
           Inl e \<Rightarrow> Inl e
         | Inr v \<Rightarrow>
             (case cs_rem i perRow of
                Inl e \<Rightarrow> Inl e
              | Inr ix \<Rightarrow>
                  (case cs_div i perRow of
                     Inl e \<Rightarrow> Inl e
                   | Inr iy \<Rightarrow>
                       RenderPage dominoValues perRow currentIndex dominoesThisPage (i + 1)
                         (page @ [\<lparr>tile_code = v, tile_ix = ix, tile_iy = iy\<rparr>]))))
      else Inr page)"
  by pat_completeness auto
termination
  by (relation "measure (\<lambda>(dominoValues, perRow, currentIndex, dominoesThisPage, i, page).
        nat (dominoesThisPage - i))") auto

declare RenderPage.simps [simp del]

text \<open>
  The outer loop \<^verbatim>\<open>while (remainingDominoes > 0)\<close> adds one page per round. It does not
  end when \<open>dominoesPerPage\<close> is not positive, so not returning is the value \<open>None\<close>.
\<close>

partial_function (option) GeneratePdf_loop ::
  "int list \<Rightarrow> int \<Rightarrow> int \<Rightarrow> int \<Rightarrow> int \<Rightarrow> tile list list \<Rightarrow> (cs_exception + tile list list) option" where
  "GeneratePdf_loop dominoValues perRow perPage remainingDominoes currentIndex document =
     (if remainingDominoes > 0 then
        (let dominoesThisPage = min remainingDominoes perPage in
         case RenderPage dominoValues perRow currentIndex dominoesThisPage 0 [] of
           Inl e \<Rightarrow> Some (Inl e)
         | Inr page \<Rightarrow>
             GeneratePdf_loop dominoValues perRow perPage
               (remainingDominoes - dominoesThisPage) (currentIndex + dominoesThisPage)
               (document @ [page]))
      else Some (Inr document))"

text \<open>
  \<^verbatim>\<open>GeneratePdf\<close>: its local \<open>dominoesPerPage\<close> is computed from the height of the page
  when it has one (the floor, cast to \<^verbatim>\<open>int\<close>, times the tiles per row), and is the number
  of all tiles otherwise. Then the loop runs over all tiles. (The drawing itself is left
  out.)
\<close>

definition GeneratePdf_perPage :: "(number \<Rightarrow> int) \<Rightarrow> DominoFactory \<Rightarrow> int \<Rightarrow> int \<Rightarrow> int" where
  "GeneratePdf_perPage ovf f cnt perRow =
     (case height (pageSetup f) of
        Some h \<Rightarrow>
          wrap32 (cs_int ovf (num_floor (num_div (Num (toInches h - DominoMargin))
                                             (Num (DominoHeight + DominoMargin))))
                  * perRow)
      | None \<Rightarrow> cnt)"

definition GeneratePdf ::
  "(number \<Rightarrow> int) \<Rightarrow> DominoFactory \<Rightarrow> int list \<Rightarrow> int \<Rightarrow> (cs_exception + tile list list) option" where
  "GeneratePdf ovf f dominoValues perRow =
     (let cnt = int (length dominoValues);
          perPage = GeneratePdf_perPage ovf f cnt perRow
      in GeneratePdf_loop dominoValues perRow perPage cnt 0 [])"

subsection \<open>TypeScript: the loops of \<^verbatim>\<open>generateLetterPagesPdfBlob\<close>\<close>

text \<open>
  \<open>i % dominoesPerRow\<close> and \<open>Math.floor(i / dominoesPerRow)\<close> on JavaScript numbers; the
  remainder by zero is \<open>NaN\<close>. For integers the remainder has the sign of the dividend.
\<close>

definition js_rem :: "int \<Rightarrow> int \<Rightarrow> number" where
  "js_rem a b = (if b = 0 then NaN else Num (of_int (sgn a * (\<bar>a\<bar> mod \<bar>b\<bar>))))"

definition js_floor_div :: "int \<Rightarrow> int \<Rightarrow> number" where
  "js_floor_div a b = num_floor (num_div (Num (of_int a)) (Num (of_int b)))"

record js_tile =
  js_code :: "int option"
  js_ix :: number
  js_iy :: number

text \<open>
  The inner loop \<^verbatim>\<open>for (let i = 0; i < dominoesPerPage; i++)\<close> reads
  \<open>values[pageStart + i]\<close>; the outer loop runs over \<open>pageIndex < pageCount\<close> with
  \<open>pageStart = pageIndex * dominoesPerPage\<close>.
\<close>

function page_loop ::
  "int option list \<Rightarrow> int \<Rightarrow> int \<Rightarrow> int \<Rightarrow> int \<Rightarrow> js_tile list \<Rightarrow> js_tile list" where
  "page_loop values perRow perPage pageStart i page =
     (if i < perPage then
        page_loop values perRow perPage pageStart (i + 1)
          (page @ [\<lparr>js_code = js_get values (pageStart + i),
                    js_ix = js_rem i perRow,
                    js_iy = js_floor_div i perRow\<rparr>])
      else page)"
  by pat_completeness auto
termination
  by (relation "measure (\<lambda>(values, perRow, perPage, pageStart, i, page).
        nat (perPage - i))") auto

declare page_loop.simps [simp del]

function pages_loop ::
  "int option list \<Rightarrow> int \<Rightarrow> int \<Rightarrow> int \<Rightarrow> int \<Rightarrow> js_tile list list \<Rightarrow> js_tile list list" where
  "pages_loop values pageCount perRow perPage pageIndex doc =
     (if pageIndex < pageCount then
        pages_loop values pageCount perRow perPage (pageIndex + 1)
          (doc @ [page_loop values perRow perPage (pageIndex * perPage) 0 []])
      else doc)"
  by pat_completeness auto
termination
  by (relation "measure (\<lambda>(values, pageCount, perRow, perPage, pageIndex, doc).
        nat (pageCount - pageIndex))") auto

declare pages_loop.simps [simp del]

text \<open>
  \<^verbatim>\<open>generateLetterPagesPdfBlob\<close> from the point where the counts are known:
  \<open>totalDominoes = pageCount * dominoesPerPage\<close>, the values are drawn by
  \<^verbatim>\<open>pickRandomDominoes(valid, totalDominoes)\<close>, and the two loops lay them out. An error
  of \<^verbatim>\<open>pickRandomDominoes\<close> is passed on.
\<close>

definition letterPages ::
  "(nat \<Rightarrow> real) \<Rightarrow> int option list \<Rightarrow> int \<Rightarrow> int \<Rightarrow> int \<Rightarrow> (js_error + js_tile list list) option" where
  "letterPages us valid pageCount perRow perPage =
     (let totalDominoes = pageCount * perPage in
      case pickRandomDominoes us valid totalDominoes of
        None \<Rightarrow> None
      | Some (Inl e) \<Rightarrow> Some (Inl e)
      | Some (Inr values) \<Rightarrow> Some (Inr (pages_loop values pageCount perRow perPage 0 [])))"

section \<open>The module \<^verbatim>\<open>dominoFactory.ts\<close> and its arrays in a store\<close>

text \<open>
  JavaScript arrays are objects: \<^verbatim>\<open>getValidDominoes()\<close> returns a reference to the array
  \<^verbatim>\<open>VALID_DOMINOES\<close> of the module, not a copy. To say that this array is never written
  after the module is loaded, arrays live in a store here: a map from references to the
  contents of arrays, with the next free reference. \<^verbatim>\<open>slice()\<close>, \<^verbatim>\<open>new Array(n)\<close> and
  \<open>[]\<close> allocate a new array; \<open>a[i] = v\<close> and \<open>a.push(v)\<close> write the array that \<open>a\<close>
  refers to.
\<close>

type_synonym ref = nat

record store =
  arrays :: "ref \<Rightarrow> int option list"
  next_ref :: ref

definition alloc :: "store \<Rightarrow> int option list \<Rightarrow> ref \<times> store" where
  "alloc s xs = (next_ref s, s\<lparr>arrays := (arrays s)(next_ref s := xs), next_ref := Suc (next_ref s)\<rparr>)"

definition store_get :: "store \<Rightarrow> ref \<Rightarrow> int \<Rightarrow> int option" where
  "store_get s r i = js_get (arrays s r) i"

definition store_set :: "store \<Rightarrow> ref \<Rightarrow> int \<Rightarrow> int option \<Rightarrow> store" where
  "store_set s r i v = s\<lparr>arrays := (arrays s)(r := js_set (arrays s r) i v)\<rparr>"

definition store_push :: "store \<Rightarrow> ref \<Rightarrow> int option \<Rightarrow> store" where
  "store_push s r v = s\<lparr>arrays := (arrays s)(r := arrays s r @ [v])\<rparr>"

text \<open>
  The store after the module is loaded: the two constants \<^verbatim>\<open>REVERSE8\<close> and
  \<^verbatim>\<open>VALID_DOMINOES\<close> hold the arrays that \<^verbatim>\<open>createReverseTable()\<close> and
  \<^verbatim>\<open>buildValidDominoesList()\<close> returned.
\<close>

definition REVERSE8_ref :: ref where
  "REVERSE8_ref = 0"

definition VALID_DOMINOES_ref :: ref where
  "VALID_DOMINOES_ref = 1"

definition module_loaded :: store where
  "module_loaded =
     \<lparr>arrays = (\<lambda>r. [])(REVERSE8_ref := REVERSE8, VALID_DOMINOES_ref := map Some VALID_DOMINOES),
      next_ref = 2\<rparr>"

definition getValidDominoes :: "store \<Rightarrow> ref \<times> store" where
  "getValidDominoes s = (VALID_DOMINOES_ref, s)"

text \<open>
  \<^verbatim>\<open>generateRandomUniqueDominoes\<close> in the store. The loop returns the error it threw, if
  any, and the store.
\<close>

function generate_loop_in ::
  "(nat \<Rightarrow> draw) \<Rightarrow> int \<Rightarrow> int \<Rightarrow> ref \<Rightarrow> ref \<Rightarrow> store \<Rightarrow> js_error option \<times> store" where
  "generate_loop_in rs cnt i available result s =
     (if i < cnt then
        (case randomInt i (int (length (arrays s available))) (rs (nat i)) of
           Inl e \<Rightarrow> (Some e, s)
         | Inr randomIndex \<Rightarrow>
             (let s1 = store_set s result i (store_get s available randomIndex);
                  s2 = store_set s1 available randomIndex (store_get s1 available i)
              in generate_loop_in rs cnt (i + 1) available result s2))
      else (None, s))"
  by pat_completeness auto
termination
  by (relation "measure (\<lambda>(rs, cnt, i, available, result, s). nat (cnt - i))") auto

declare generate_loop_in.simps [simp del]

definition generateRandomUniqueDominoes_in ::
  "(nat \<Rightarrow> draw) \<Rightarrow> int \<Rightarrow> store \<Rightarrow> (js_error + ref) \<times> store" where
  "generateRandomUniqueDominoes_in rs cnt s =
     (let (available, s1) = alloc s (arrays s VALID_DOMINOES_ref) in
      if cnt > int (length (arrays s1 available))
        then (Inl (InsufficientDominoes cnt (length (arrays s1 available))), s1)
      else if cnt < 0 then (Inl InvalidArrayLength, s1)
      else (let (result, s2) = alloc s1 (replicate (nat cnt) None) in
            case generate_loop_in rs cnt 0 available result s2 of
              (Some e, s3) \<Rightarrow> (Inl e, s3)
            | (None, s3) \<Rightarrow> (Inr result, s3)))"

text \<open>\<^verbatim>\<open>pickRandomDominoes\<close> in the store; \<open>source\<close> is a reference.\<close>

function pick_loop_in ::
  "(nat \<Rightarrow> real) \<Rightarrow> int \<Rightarrow> int \<Rightarrow> ref \<Rightarrow> ref \<Rightarrow> store \<Rightarrow> store" where
  "pick_loop_in us take_n i available result s =
     (if i < take_n then
        (let j = i + \<lfloor>us (length (arrays s result)) * of_int (int (length (arrays s available)) - i)\<rfloor>;
             s1 = store_push s result (store_get s available j);
             s2 = store_set s1 available j (store_get s1 available i)
         in pick_loop_in us take_n (i + 1) available result s2)
      else s)"
  by pat_completeness auto
termination
  by (relation "measure (\<lambda>(us, take_n, i, available, result, s). nat (take_n - i))") auto

declare pick_loop_in.simps [simp del]

partial_function (option) pick_rounds_in ::
  "(nat \<Rightarrow> real) \<Rightarrow> ref \<Rightarrow> int \<Rightarrow> ref \<Rightarrow> store \<Rightarrow> store option" where
  "pick_rounds_in us source remaining result s =
     (if remaining > 0 then
        (let take_n = min remaining (int (length (arrays s source)));
             (available, s1) = alloc s (arrays s source)
         in pick_rounds_in us source (remaining - take_n) result
              (pick_loop_in us take_n 0 available result s1))
      else Some s)"

definition pickRandomDominoes_in ::
  "(nat \<Rightarrow> real) \<Rightarrow> ref \<Rightarrow> int \<Rightarrow> store \<Rightarrow> ((js_error + ref) \<times> store) option" where
  "pickRandomDominoes_in us source cnt s =
     (if length (arrays s source) = 0 then Some (Inl NoValidDominoes, s)
      else if cnt \<le> 0 then (let (result, s1) = alloc s [] in Some (Inr result, s1))
      else (let (result, s1) = alloc s [] in
            map_option (\<lambda>s2. (Inr result, s2)) (pick_rounds_in us source cnt result s1)))"

text \<open>
  The calls that reach the array of valid codes: \<^verbatim>\<open>getValidDominoes()\<close>,
  \<^verbatim>\<open>generateRandomUniqueDominoes(count)\<close> (from \<^verbatim>\<open>generateSvg\<close>), and
  \<^verbatim>\<open>pickRandomDominoes(DominoFactory.getValidDominoes(), count)\<close> (from \<^verbatim>\<open>pdf.ts\<close> and
  \<^verbatim>\<open>preview.ts\<close>). A sequence of calls runs one after the other on the store; a call that
  throws leaves the store as it was at the throw.
\<close>

datatype call =
    Call_getValidDominoes
  | Call_generateRandomUniqueDominoes "nat \<Rightarrow> draw" int
  | Call_pickRandomDominoes "nat \<Rightarrow> real" int

fun exec :: "call \<Rightarrow> store \<Rightarrow> store option" where
  "exec Call_getValidDominoes s = Some (snd (getValidDominoes s))"
| "exec (Call_generateRandomUniqueDominoes rs cnt) s = Some (snd (generateRandomUniqueDominoes_in rs cnt s))"
| "exec (Call_pickRandomDominoes us cnt) s =
     (let (valid, s1) = getValidDominoes s in map_option snd (pickRandomDominoes_in us valid cnt s1))"

fun run :: "call list \<Rightarrow> store \<Rightarrow> store option" where
  "run [] s = Some s"
| "run (c # cs) s = (case exec c s of None \<Rightarrow> None | Some s1 \<Rightarrow> run cs s1)"

section \<open>Notions of the specification and devices of the proofs\<close>

subsection \<open>Checking a predicate on a range of integers\<close>

text \<open>
  The enumerator runs over the 4096 values of \<open>dataBits\<close>. Facts about single candidates
  are bit-level facts about numerals; they are checked by evaluating an executable
  predicate on every value of the range, with a counter that stays a numeral.
\<close>

function all_range :: "(int \<Rightarrow> bool) \<Rightarrow> int \<Rightarrow> int \<Rightarrow> bool" where
  "all_range P d hi = (if d < hi then (if P d then all_range P (d + 1) hi else False) else True)"
  by pat_completeness auto
termination
  by (relation "measure (\<lambda>(P, d, hi). nat (hi - d))") auto

declare all_range.simps [simp del]

function count_range :: "(int \<Rightarrow> bool) \<Rightarrow> int \<Rightarrow> int \<Rightarrow> int \<Rightarrow> int" where
  "count_range P d hi n = (if d < hi then count_range P (d + 1) hi (if P d then n + 1 else n) else n)"
  by pat_completeness auto
termination
  by (relation "measure (\<lambda>(P, d, hi, n). nat (hi - d))") auto

declare count_range.simps [simp del]

text \<open>
  The loop of \<open>popCount12\<close> on integers, for evaluation (natural numbers are unary
  for the evaluator).
\<close>

function pc_int :: "int \<Rightarrow> int \<Rightarrow> int" where
  "pc_int x c = (if 0 < x then pc_int (x AND (x - 1)) (c + 1) else c)"
  by pat_completeness auto
termination
  by (relation "measure (\<lambda>(x, c). nat x)") auto

declare pc_int.simps [simp del]

text \<open>
  \<open>kept d\<close>: the candidate built from \<open>d\<close> passes the population count and the
  palindrome test.
\<close>

definition kept :: "int \<Rightarrow> bool" where
  "kept d = (if pc_int d 0 = 6 then reverse8_loop 0 (col0 d) 0 \<noteq> col1 d else False)"

definition cand_ok :: "int \<Rightarrow> bool" where
  "cand_ok d \<longleftrightarrow>
     0 \<le> col0 d \<and> col0 d < 256 \<and>
     (value_ts d AND CONSTANT_PIPS_MASK) AND 0xffff = CONSTANT_PIPS_MASK \<and>
     (value_ts d AND DATA_BITS_MASK) AND 0xffff = value_ts d AND DATA_BITS_MASK \<and>
     value_cs d = value_ts d \<and>
     take_bit 8 (reverse8_loop 0 (col0 d) 0) = reverse8_loop 0 (col0 d) 0"

text \<open>The number of set bits of a natural number, by halving.\<close>

fun bitcount :: "nat \<Rightarrow> nat" where
  "bitcount x = (if x = 0 then 0 else x mod 2 + bitcount (x div 2))"

declare bitcount.simps [simp del]

subsection \<open>The legality invariants of a code\<close>

text \<open>
  Bit reversal of a byte, written independently of the table of the source; the positions
  of the twelve payload bits (all but bits 0 and 7 of each column); the two columns of a
  code, as \<^verbatim>\<open>CheckForSymmetricDominoes\<close> splits it.
\<close>

definition bit_reverse8 :: "int \<Rightarrow> int" where
  "bit_reverse8 x = sum_list (map (\<lambda>i. if bit x i then 2 ^ (7 - i) else 0) [0..<8])"

definition payload_positions :: "nat list" where
  "payload_positions = [1, 2, 3, 4, 5, 6, 9, 10, 11, 12, 13, 14]"

definition frame_bits_set :: "int \<Rightarrow> bool" where
  "frame_bits_set v \<longleftrightarrow> bit v 0 \<and> bit v 7 \<and> bit v 8 \<and> bit v 15"

definition payload_count :: "int \<Rightarrow> nat" where
  "payload_count v = length (filter (bit v) payload_positions)"

definition column0 :: "int \<Rightarrow> int" where
  "column0 v = v AND COLUMN_MASK"

definition column1 :: "int \<Rightarrow> int" where
  "column1 v = drop_bit 8 v AND COLUMN_MASK"

definition legal :: "int \<Rightarrow> bool" where
  "legal v \<longleftrightarrow> frame_bits_set v \<and> payload_count v = 6 \<and> bit_reverse8 (column0 v) \<noteq> column1 v"







subsection \<open>Sample sources of randomness\<close>

text \<open>
  \<^verbatim>\<open>Math.random()\<close> returning 0 every time, \<^verbatim>\<open>crypto.getRandomValues\<close> storing the
  word 0 every time, and \<^verbatim>\<open>Random.Shared.Next\<close> returning its lower bound every time.
\<close>

definition zero_draws :: "nat \<Rightarrow> real" where
  "zero_draws k = 0"

definition crypto_zero :: "nat \<Rightarrow> draw" where
  "crypto_zero k = CryptoWord 0"

definition zero_raws :: "nat \<Rightarrow> nat" where
  "zero_raws k = 0"


subsection \<open>Sample inputs of the layout\<close>

text \<open>
  A page too narrow for one tile, a page too short for one tile, and a conversion to
  \<^verbatim>\<open>int\<close> that yields 0 outside the range.
\<close>

definition narrow_page :: DominoFactory where
  "narrow_page =
     new_DominoFactory None
       (Some \<lparr>width = inches 0.5, height = Some (inches 11), margin = Some (inches 0.25)\<rparr>)"

definition ovf0 :: "number \<Rightarrow> int" where
  "ovf0 x = 0"

definition short_page :: DominoFactory where
  "short_page =
     new_DominoFactory None
       (Some \<lparr>width = inches 8.5, height = Some (inches 1.5), margin = Some (inches 0.25)\<rparr>)"


subsection \<open>The grid of a page\<close>

text \<open>
  Tile \<open>k\<close> of a page stands in column \<open>k mod perRow\<close> and row \<open>k div perRow\<close>.
\<close>

definition page_ok :: "int \<Rightarrow> tile list \<Rightarrow> bool" where
  "page_ok perRow page \<longleftrightarrow>
     (\<forall>k<length page. tile_ix (page ! k) = int k mod perRow \<and> tile_iy (page ! k) = int k div perRow)"

definition js_page_ok :: "int \<Rightarrow> js_tile list \<Rightarrow> bool" where
  "js_page_ok perRow page \<longleftrightarrow>
     (\<forall>k<length page. js_ix (page ! k) = Num (of_int (int k mod perRow)) \<and>
                       js_iy (page ! k) = Num (of_int (int k div perRow)))"

subsection \<open>Chunks of a sequence\<close>

text \<open>
  The chunks of \<open>n\<close> elements of a sequence, in order; the last chunk holds what is left.
\<close>

function chunks :: "nat \<Rightarrow> 'a list \<Rightarrow> 'a list list" where
  "chunks n xs = (if n = 0 \<or> xs = [] then [] else take n xs # chunks n (drop n xs))"
  by pat_completeness auto
termination
  by (relation "measure (\<lambda>(n, xs). length xs)") auto

declare chunks.simps [simp del]

text \<open>
  What the claim says of the pages that pagination makes of the codes \<open>vals\<close>: the pages
  are the chunks of \<open>perPage\<close> codes, in the order of the input, so every code is emitted
  once; no page is empty or holds more than \<open>perPage\<close> tiles, and every page but the last
  holds exactly \<open>perPage\<close>; the tiles of a page stand on the grid; and there are
  \<open>ceil(total / perPage)\<close> pages.
\<close>

definition paginates :: "int \<Rightarrow> int \<Rightarrow> int list \<Rightarrow> tile list list \<Rightarrow> bool" where
  "paginates perRow perPage vals pages \<longleftrightarrow>
     map (map tile_code) pages = chunks (nat perPage) vals \<and>
     concat (map (map tile_code) pages) = vals \<and>
     (\<forall>p\<in>set pages. page_ok perRow p \<and> p \<noteq> [] \<and> int (length p) \<le> perPage) \<and>
     (\<forall>k. Suc k < length pages \<longrightarrow> int (length (pages ! k)) = perPage) \<and>
     int (length pages) = \<lceil>real (length vals) / real_of_int perPage\<rceil>"

definition js_paginates :: "int \<Rightarrow> int \<Rightarrow> int option list \<Rightarrow> js_tile list list \<Rightarrow> bool" where
  "js_paginates perRow perPage vals pages \<longleftrightarrow>
     map (map js_code) pages = chunks (nat perPage) vals \<and>
     concat (map (map js_code) pages) = vals \<and>
     (\<forall>p\<in>set pages. js_page_ok perRow p \<and> int (length p) = perPage) \<and>
     int (length pages) = \<lceil>real (length vals) / real_of_int perPage\<rceil>"

text \<open>A page 2 inches high: one row of tiles fits.\<close>

definition low_page :: DominoFactory where
  "low_page =
     new_DominoFactory None
       (Some \<lparr>width = inches 8.5, height = Some (inches 2), margin = Some (inches 0.25)\<rparr>)"


section \<open>The enumerator: lemmas\<close>

subsection \<open>The range checkers\<close>

lemma all_range_iff: "all_range P d hi \<longleftrightarrow> (\<forall>x. d \<le> x \<and> x < hi \<longrightarrow> P x)"
proof (induction P d hi rule: all_range.induct)
  case (1 P d hi)
  have split: "d \<le> x \<longleftrightarrow> x = d \<or> d + 1 \<le> x" for x :: int
    by arith
  show ?case
  proof (cases "d < hi")
    case True
    show ?thesis
    proof (cases "P d")
      case True
      with \<open>d < hi\<close> 1 have "all_range P d hi \<longleftrightarrow> (\<forall>x. d + 1 \<le> x \<and> x < hi \<longrightarrow> P x)"
        by (subst all_range.simps) simp
      also have "\<dots> \<longleftrightarrow> (\<forall>x. d \<le> x \<and> x < hi \<longrightarrow> P x)"
        unfolding split[of _] using True by auto
      finally show ?thesis .
    next
      case False
      with \<open>d < hi\<close> show ?thesis by (subst all_range.simps) auto
    qed
  next
    case False
    then show ?thesis by (subst all_range.simps) auto
  qed
qed

lemma count_range_filter: "count_range P d hi n = n + int (length (filter P [d..hi - 1]))"
proof (induction P d hi n rule: count_range.induct)
  case (1 P d hi n)
  show ?case
  proof (cases "d < hi")
    case True
    have "[d..hi - 1] = d # [d + 1..hi - 1]"
      using True by (subst upto_rec1) auto
    with True 1 show ?thesis by (subst count_range.simps) simp
  next
    case False
    then show ?thesis by (subst count_range.simps) simp
  qed
qed


subsection \<open>The tables of reversed bytes\<close>

lemma length_js_set_in: "0 \<le> i \<Longrightarrow> nat i < length xs \<Longrightarrow> length (js_set xs i v) = length xs"
  by (simp add: js_set_def)

lemma js_get_js_set_in:
  "0 \<le> i \<Longrightarrow> nat i < length xs \<Longrightarrow> js_get (js_set xs i v) k = (if k = i then v else js_get xs k)"
  by (auto simp: js_set_def js_get_def nat_eq_iff)

lemma createReverseTable_loop_props:
  "0 \<le> i \<Longrightarrow> length table = 256 \<Longrightarrow>
   length (createReverseTable_loop i table) = 256 \<and>
   (\<forall>k. js_get (createReverseTable_loop i table) k =
        (if i \<le> k \<and> k < 256 then Some (reverse8_loop 0 k 0) else js_get table k))"
proof (induction i table rule: createReverseTable_loop.induct)
  case (1 i table)
  show ?case
  proof (cases "i < 256")
    case True
    let ?t = "js_set table i (Some (reverse8_loop 0 i 0))"
    have len: "length ?t = 256" using True 1(2,3) by (simp add: length_js_set_in)
    have get: "js_get ?t k = (if k = i then Some (reverse8_loop 0 i 0) else js_get table k)" for k
      using True 1(2,3) by (simp add: js_get_js_set_in)
    from 1(1)[OF True _ len] 1(2)
    have ih: "length (createReverseTable_loop (i + 1) ?t) = 256 \<and>
      (\<forall>k. js_get (createReverseTable_loop (i + 1) ?t) k =
        (if i + 1 \<le> k \<and> k < 256 then Some (reverse8_loop 0 k 0) else js_get ?t k))"
      by simp
    have unf: "createReverseTable_loop i table = createReverseTable_loop (i + 1) ?t"
      using True by (subst createReverseTable_loop.simps) simp
    show ?thesis
      unfolding unf using ih get True by auto
  next
    case False
    then show ?thesis using 1(3) by (subst (1 2) createReverseTable_loop.simps) auto
  qed
qed

lemma REVERSE8_get:
  "0 \<le> k \<Longrightarrow> k < 256 \<Longrightarrow> js_get REVERSE8 k = Some (reverse8_loop 0 k 0)"
  using createReverseTable_loop_props[of 0 "replicate 256 None"]
  by (simp add: REVERSE8_def createReverseTable_def)

lemma CreateReverseTable_loop_props:
  "0 \<le> i \<Longrightarrow> length t = 256 \<Longrightarrow>
   \<exists>t'. CreateReverseTable_loop i t = Inr t' \<and> length t' = 256 \<and>
     (\<forall>k. 0 \<le> k \<and> k < 256 \<longrightarrow> t' ! nat k =
        (if i \<le> k then take_bit 8 (reverse8_loop 0 k 0) else t ! nat k))"
proof (induction i t rule: CreateReverseTable_loop.induct)
  case (1 i t)
  show ?case
  proof (cases "i < 256")
    case True
    let ?t = "t[nat i := take_bit 8 (reverse8_loop 0 i 0)]"
    have set: "cs_set t i (take_bit 8 (reverse8_loop 0 i 0)) = Inr ?t"
      using True 1(2,3) by (simp add: cs_set_def)
    have len: "length ?t = 256" using 1(3) by simp
    from 1(1)[OF True set _ len] 1(2)
    obtain t' where t': "CreateReverseTable_loop (i + 1) ?t = Inr t'" "length t' = 256"
      "\<forall>k. 0 \<le> k \<and> k < 256 \<longrightarrow> t' ! nat k =
        (if i + 1 \<le> k then take_bit 8 (reverse8_loop 0 k 0) else ?t ! nat k)"
      by auto
    have unf: "CreateReverseTable_loop i t = CreateReverseTable_loop (i + 1) ?t"
      using True set by (subst CreateReverseTable_loop.simps) simp
    have "\<forall>k. 0 \<le> k \<and> k < 256 \<longrightarrow> t' ! nat k =
        (if i \<le> k then take_bit 8 (reverse8_loop 0 k 0) else t ! nat k)"
    proof (intro allI impI)
      fix k :: int assume k: "0 \<le> k \<and> k < 256"
      show "t' ! nat k = (if i \<le> k then take_bit 8 (reverse8_loop 0 k 0) else t ! nat k)"
      proof (cases "k = i")
        case True
        have "nat i < length t" using k True 1(3) by auto
        then show ?thesis using t'(3) k True by simp
      next
        case False
        then have "nat k \<noteq> nat i" using k 1(2) by (simp add: nat_eq_iff)
        then show ?thesis using t'(3) k False by auto
      qed
    qed
    then show ?thesis unfolding unf using t'(1,2) by blast
  next
    case False
    then show ?thesis using 1(3) by (subst CreateReverseTable_loop.simps) simp
  qed
qed

lemma CreateReverseTable_get:
  "\<exists>t. CreateReverseTable = Inr t \<and> length t = 256 \<and>
     (\<forall>k. 0 \<le> k \<and> k < 256 \<longrightarrow> cs_get t k = Inr (take_bit 8 (reverse8_loop 0 k 0)))"
  using CreateReverseTable_loop_props[of 0 "replicate 256 0"]
  by (auto simp: CreateReverseTable_def cs_get_def)

subsection \<open>Population count\<close>

lemma popCount12_loop_pc_int: "0 \<le> x \<Longrightarrow> popCount12_loop (nat x) c = pc_int x c"
proof (induction x c rule: pc_int.induct)
  case (1 x c)
  show ?case
  proof (cases "0 < x")
    case True
    have nn: "0 \<le> x AND (x - 1)" using True by simp
    have "int (nat x - Suc 0) = x - 1" using True by simp
    then have step: "nat x AND (nat x - Suc 0) = nat (x AND (x - 1))"
      using True by (simp add: and_nat_def)
    have "popCount12_loop (nat x) c = popCount12_loop (nat (x AND (x - 1))) (c + 1)"
      using True by (subst popCount12_loop.simps) (simp add: step)
    also have "\<dots> = pc_int (x AND (x - 1)) (c + 1)"
      using 1(1)[OF True nn] .
    also have "\<dots> = pc_int x c"
      using True by (subst (2) pc_int.simps) simp
    finally show ?thesis .
  next
    case False
    with 1(2) have "x = 0" by simp
    then show ?thesis
      by (subst popCount12_loop.simps, subst pc_int.simps) simp
  qed
qed

lemma and_4095: "0 \<le> d \<Longrightarrow> d < 4096 \<Longrightarrow> d AND 4095 = (d::int)"
proof -
  assume d: "0 \<le> d" "d < 4096"
  have "(4095::int) = mask 12" by (simp add: mask_eq_exp_minus_1)
  then have "d AND 4095 = take_bit 12 d" by (simp add: take_bit_eq_mask)
  also have "\<dots> = d" using d by (simp add: take_bit_int_eq_self)
  finally show ?thesis .
qed

lemma popCount12_pc_int: "0 \<le> d \<Longrightarrow> d < 4096 \<Longrightarrow> popCount12 d = pc_int d 0"
  by (simp add: popCount12_def and_4095 popCount12_loop_pc_int)

lemma kernighan_step: "x \<noteq> 0 \<Longrightarrow> bitcount (x AND (x - 1)) + 1 = bitcount x"
proof (induction x rule: less_induct)
  case (less x)
  show ?case
  proof (cases "odd x")
    case True
    then obtain y where x: "x = 2 * y + 1" by (auto elim: oddE)
    have "x AND (x - 1) = 2 * y"
      unfolding x by (subst and_nat_rec) simp
    moreover have "bitcount (2 * y) = bitcount y"
      by (subst bitcount.simps) (simp add: bitcount.simps[of 0])
    moreover have "bitcount x = 1 + bitcount y"
      unfolding x by (subst bitcount.simps) simp
    ultimately show ?thesis by simp
  next
    case False
    then obtain y where x: "x = 2 * y" by (auto elim: evenE)
    with less.prems have y: "y \<noteq> 0" "y < x" by auto
    have "x - 1 = 2 * (y - 1) + 1" using y x by simp
    then have "x AND (x - 1) = 2 * (y AND (y - 1))"
      unfolding x by (subst and_nat_rec) simp
    moreover have "bitcount (2 * (y AND (y - 1))) = bitcount (y AND (y - 1))"
      by (subst bitcount.simps) (simp add: bitcount.simps[of 0])
    moreover have "bitcount x = bitcount y"
      unfolding x using y by (subst bitcount.simps) simp
    ultimately show ?thesis using less.IH[OF y(2) y(1)] by simp
  qed
qed

lemma popCount12_loop_bitcount: "popCount12_loop x c = c + int (bitcount x)"
proof (induction x c rule: popCount12_loop.induct)
  case (1 x c)
  show ?case
  proof (cases "x = 0")
    case True
    then show ?thesis by (subst popCount12_loop.simps) (simp add: bitcount.simps[of 0])
  next
    case False
    with 1 have "popCount12_loop x c = c + 1 + int (bitcount (x AND (x - 1)))"
      by (subst popCount12_loop.simps) simp
    with kernighan_step[OF False] show ?thesis by linarith
  qed
qed

lemma bitcount_filter: "x < 2 ^ n \<Longrightarrow> bitcount x = length (filter (bit x) [0..<n])"
proof (induction n arbitrary: x)
  case 0
  then show ?case by (simp add: bitcount.simps[of 0])
next
  case (Suc n)
  have "x div 2 < 2 ^ n" using Suc.prems by auto
  from Suc.IH[OF this] have ih: "bitcount (x div 2) = length (filter (bit (x div 2)) [0..<n])" .
  have split: "[0..<Suc n] = 0 # map Suc [0..<n]"
    by (simp add: upt_conv_Cons map_Suc_upt del: upt_Suc)
  have "length (filter (bit x) [0..<Suc n]) = (if odd x then 1 else 0) + length (filter (bit (x div 2)) [0..<n])"
    unfolding split by (simp add: filter_map comp_def bit_Suc bit_0 del: upt_Suc)
  moreover have "bitcount x = (if odd x then 1 else 0) + bitcount (x div 2)"
    by (subst bitcount.simps) (auto simp: bitcount.simps[of 0] odd_iff_mod_2_eq_one)
  ultimately show ?case using ih by simp
qed

lemma PopCount_popCount12:
  assumes "0 \<le> d" "d < 4096"
  shows "PopCount (take_bit 32 d) = popCount12 d"
proof -
  have tb: "take_bit 32 d = d" using assms by (simp add: take_bit_int_eq_self)
  have "nat d < 2 ^ 32" using assms by (simp add: nat_less_iff)
  then have "bitcount (nat d) = length (filter (bit (nat d)) [0..<32])"
    by (rule bitcount_filter)
  also have "bit (nat d) = bit d"
    using assms by (intro ext) (simp add: bit_nat_iff)
  finally have "PopCount d = int (bitcount (nat d))" by (simp add: PopCount_def)
  moreover have "popCount12 d = int (bitcount (nat d))"
    using assms by (simp add: popCount12_def and_4095 popCount12_loop_bitcount)
  ultimately show ?thesis by (simp add: tb)
qed

subsection \<open>The loop of the TypeScript enumerator\<close>

lemma cand_ok_eval: "all_range (\<lambda>d. if pc_int d 0 = 6 then cand_ok d else True) 0 4096"
  by code_simp

lemma cand_ok: "0 \<le> d \<Longrightarrow> d < 4096 \<Longrightarrow> pc_int d 0 = 6 \<Longrightarrow> cand_ok d"
  using cand_ok_eval unfolding all_range_iff by (auto split: if_splits)

lemma value_ts_step_eval: "all_range (\<lambda>d. value_ts d < value_ts (d + 1)) 0 4095"
  by code_simp

lemma value_ts_step: "0 \<le> d \<Longrightarrow> d < 4095 \<Longrightarrow> value_ts d < value_ts (d + 1)"
  using value_ts_step_eval unfolding all_range_iff by auto

lemma value_ts_mono_aux: "0 \<le> a \<Longrightarrow> a + int k + 1 < 4096 \<Longrightarrow> value_ts a < value_ts (a + int k + 1)"
proof (induction k)
  case 0
  then show ?case using value_ts_step[of a] by simp
next
  case (Suc k)
  then have "value_ts a < value_ts (a + int k + 1)" by simp
  also have "\<dots> < value_ts (a + int k + 1 + 1)"
    using Suc.prems by (intro value_ts_step) auto
  finally show ?case by (simp add: algebra_simps)
qed

lemma value_ts_mono: "0 \<le> a \<Longrightarrow> a < b \<Longrightarrow> b < 4096 \<Longrightarrow> value_ts a < value_ts b"
  using value_ts_mono_aux[of a "nat (b - a - 1)"] by simp

lemma buildStep_kept:
  assumes "0 \<le> d" "d < 4096"
  shows "buildStep d (seen, list) =
    (if kept d \<and> value_ts d \<notin> seen then (insert (value_ts d) seen, list @ [value_ts d])
     else (seen, list))"
proof (cases "pc_int d 0 = 6")
  case True
  from cand_ok[OF assms True] have ok: "cand_ok d" .
  then have get: "js_get REVERSE8 (col0 d) = Some (reverse8_loop 0 (col0 d) 0)"
    by (simp add: cand_ok_def REVERSE8_get)
  show ?thesis
    using True ok get
    by (simp add: buildStep_def popCount12_pc_int[OF assms] kept_def cand_ok_def)
next
  case False
  then show ?thesis
    by (simp add: buildStep_def popCount12_pc_int[OF assms] kept_def)
qed

lemma buildLoop_eq:
  "0 \<le> d \<Longrightarrow> d \<le> 4096 \<Longrightarrow> n = nat (4096 - d) \<Longrightarrow>
   (\<forall>x\<in>set acc. \<forall>e. d \<le> e \<and> e < 4096 \<longrightarrow> x < value_ts e) \<Longrightarrow>
   buildLoop d (set acc, acc) =
     (set (acc @ map value_ts (filter kept [d..4095])), acc @ map value_ts (filter kept [d..4095]))"
proof (induction n arbitrary: d acc)
  case 0
  then have "d = 4096" by simp
  then show ?case by (subst buildLoop.simps) simp
next
  case (Suc n)
  then have d: "0 \<le> d" "d < 4096" by auto
  have notin: "value_ts d \<notin> set acc" using Suc.prems(4) d by force
  have upto: "[d..4095] = d # [d + 1..4095]" using d by (subst upto_rec1) auto
  have unf: "buildLoop d (set acc, acc) = buildLoop (d + 1) (buildStep d (set acc, acc))"
    using d by (subst buildLoop.simps) simp
  show ?case
  proof (cases "kept d")
    case True
    let ?acc = "acc @ [value_ts d]"
    have step: "buildStep d (set acc, acc) = (set ?acc, ?acc)"
      using True notin by (simp add: buildStep_kept[OF d])
    have bound: "\<forall>x\<in>set ?acc. \<forall>e. d + 1 \<le> e \<and> e < 4096 \<longrightarrow> x < value_ts e"
      using Suc.prems(4) d value_ts_mono[of d] by auto
    have "buildLoop (d + 1) (set ?acc, ?acc) =
      (set (?acc @ map value_ts (filter kept [d + 1..4095])), ?acc @ map value_ts (filter kept [d + 1..4095]))"
      using Suc.prems d by (intro Suc.IH bound) auto
    then show ?thesis unfolding unf step upto using True by simp
  next
    case False
    have step: "buildStep d (set acc, acc) = (set acc, acc)"
      using False by (simp add: buildStep_kept[OF d])
    have bound: "\<forall>x\<in>set acc. \<forall>e. d + 1 \<le> e \<and> e < 4096 \<longrightarrow> x < value_ts e"
      using Suc.prems(4) by auto
    have "buildLoop (d + 1) (set acc, acc) =
      (set (acc @ map value_ts (filter kept [d + 1..4095])), acc @ map value_ts (filter kept [d + 1..4095]))"
      using Suc.prems d by (intro Suc.IH bound) auto
    then show ?thesis unfolding unf step upto using False by simp
  qed
qed

lemma buildValidDominoesList_eq:
  "buildValidDominoesList = map value_ts (filter kept [0..4095])"
  using buildLoop_eq[of 0 "nat 4096" "[]"] by (simp add: buildValidDominoesList_def)

lemma distinct_buildValidDominoesList: "distinct buildValidDominoesList"
proof -
  have "inj_on value_ts (set (filter kept [0..4095]))"
  proof (rule inj_onI)
    fix a b assume a: "a \<in> set (filter kept [0..4095])" and b: "b \<in> set (filter kept [0..4095])"
      and eq: "value_ts a = value_ts b"
    have "\<not> a < b" using value_ts_mono[of a b] a b eq by auto
    moreover have "\<not> b < a" using value_ts_mono[of b a] a b eq by auto
    ultimately show "a = b" by simp
  qed
  then show ?thesis
    by (simp add: buildValidDominoesList_eq distinct_map)
qed

lemma count_kept_eval: "count_range kept 0 4096 0 = 904"
  by code_simp

lemma length_buildValidDominoesList: "length buildValidDominoesList = 904"
  using count_kept_eval by (simp add: buildValidDominoesList_eq count_range_filter)


subsection \<open>The loop of the C\# enumerator\<close>

lemma BuildStep_buildStep:
  assumes d: "0 \<le> d" "d < 4096"
    and R: "\<forall>k. 0 \<le> k \<and> k < 256 \<longrightarrow> cs_get R k = Inr (take_bit 8 (reverse8_loop 0 k 0))"
  shows "BuildStep R d st = Inr (buildStep d st)"
proof (cases "pc_int d 0 = 6")
  case True
  from cand_ok[OF d True] have ok: "cand_ok d" .
  then have get: "js_get REVERSE8 (col0 d) = Some (reverse8_loop 0 (col0 d) 0)"
    by (simp add: cand_ok_def REVERSE8_get)
  from ok R have cget: "cs_get R (col0 d) = Inr (reverse8_loop 0 (col0 d) 0)"
    by (simp add: cand_ok_def)
  show ?thesis
    using True ok get cget
    by (cases st) (simp add: BuildStep_def buildStep_def PopCount_popCount12[OF d]
        popCount12_pc_int[OF d] cand_ok_def)
next
  case False
  then show ?thesis
    by (cases st) (simp add: BuildStep_def buildStep_def PopCount_popCount12[OF d]
        popCount12_pc_int[OF d])
qed

lemma BuildLoop_buildLoop:
  assumes R: "\<forall>k. 0 \<le> k \<and> k < 256 \<longrightarrow> cs_get R k = Inr (take_bit 8 (reverse8_loop 0 k 0))"
  shows "0 \<le> d \<Longrightarrow> BuildLoop R d st = Inr (buildLoop d st)"
proof (induction d st rule: buildLoop.induct)
  case (1 d st)
  show ?case
  proof (cases "d < 4096")
    case True
    have "BuildLoop R d st = BuildLoop R (d + 1) (buildStep d st)"
      using True BuildStep_buildStep[OF 1(2) True R]
      by (subst BuildLoop.simps) simp
    also have "\<dots> = Inr (buildLoop (d + 1) (buildStep d st))"
      using 1 True by simp
    also have "buildLoop (d + 1) (buildStep d st) = buildLoop d st"
      using True by (subst (2) buildLoop.simps) simp
    finally show ?thesis .
  next
    case False
    then show ?thesis
      by (subst BuildLoop.simps, subst buildLoop.simps) simp
  qed
qed

lemma BuildValidDominoesList_eq: "BuildValidDominoesList = Inr buildValidDominoesList"
proof -
  from CreateReverseTable_get obtain t where t: "CreateReverseTable = Inr t"
    "\<forall>k. 0 \<le> k \<and> k < 256 \<longrightarrow> cs_get t k = Inr (take_bit 8 (reverse8_loop 0 k 0))"
    by blast
  show ?thesis
    by (simp add: BuildValidDominoesList_def t(1) BuildLoop_buildLoop[OF t(2)]
        buildValidDominoesList_def)
qed

lemma reverse8_eval: "all_range (\<lambda>x. reverse8_loop 0 x 0 = bit_reverse8 x) 0 256"
  by code_simp

lemma legal_eval: "all_range (\<lambda>d. if kept d then legal (value_ts d) else True) 0 4096"
  by code_simp

lemma legal_value_ts: "0 \<le> d \<Longrightarrow> d < 4096 \<Longrightarrow> kept d \<Longrightarrow> legal (value_ts d)"
  using legal_eval unfolding all_range_iff by (auto split: if_splits)

lemma legal_buildValidDominoesList: "v \<in> set buildValidDominoesList \<Longrightarrow> legal v"
  by (auto simp: buildValidDominoesList_eq legal_value_ts)


subsection \<open>Counting candidates\<close>





lemma in_range: "d \<in> set [0..4095] \<longleftrightarrow> 0 \<le> d \<and> d < 4096"
  by auto





section \<open>The unique sampler: lemmas\<close>

lemma fy_step:
  assumes "i \<le> r" "r < length av"
  shows "add_mset (av ! r) (mset (drop (Suc i) (av[r := av ! i]))) = mset (drop i av)"
proof (cases "r = i")
  case True
  with assms show ?thesis by (metis list_update_id Cons_nth_drop_Suc mset.simps(2))
next
  case False
  with assms have r: "Suc i \<le> r" by simp
  let ?d = "drop (Suc i) av"
  have len: "r - Suc i < length ?d" using assms r by simp
  have nth: "?d ! (r - Suc i) = av ! r" using assms r by simp
  have "drop (Suc i) (av[r := av ! i]) = ?d[r - Suc i := av ! i]"
    using r by (simp add: drop_update_swap)
  then have "mset (drop (Suc i) (av[r := av ! i])) = add_mset (av ! i) (mset ?d - {#av ! r#})"
    using len nth by (simp add: mset_update)
  moreover have "av ! r \<in># mset ?d"
    using len nth by (metis nth_mem set_mset_mset)
  ultimately have "add_mset (av ! r) (mset (drop (Suc i) (av[r := av ! i]))) = add_mset (av ! i) (mset ?d)"
    by simp
  also have "\<dots> = mset (drop i av)"
    using assms by (metis Cons_nth_drop_Suc le_less_trans mset.simps(2))
  finally show ?thesis .
qed

lemma distinct_of_submset:
  assumes "mset xs \<subseteq># mset ys" "distinct ys"
  shows "distinct xs"
proof -
  have "count (mset xs) a \<le> 1" for a
  proof -
    have "count (mset xs) a \<le> count (mset ys) a"
      using assms(1) by (simp add: mset_subset_eq_count)
    also have "\<dots> \<le> 1" using assms(2) by (simp add: distinct_count_atmost_1)
    finally show ?thesis .
  qed
  then have "count (mset xs) a = (if a \<in> set xs then 1 else 0)" for a
    using count_greater_zero_iff[of "mset xs" a] count_eq_zero_iff[of "mset xs" a]
    by (cases "a \<in> set xs") (auto simp: le_Suc_eq)
  then show ?thesis by (simp add: distinct_count_atmost_1)
qed

lemma randomInt_range:
  assumes "unit_draw d" "lo < hi"
  shows "\<exists>r. randomInt lo hi d = Inr r \<and> lo \<le> r \<and> r < hi"
proof (cases d)
  case (CryptoWord w)
  have "0 \<le> uint w mod (hi - lo)" "uint w mod (hi - lo) < hi - lo"
    using assms(2) by simp_all
  then have "lo \<le> lo + uint w mod (hi - lo)" "lo + uint w mod (hi - lo) < hi"
    by linarith+
  then show ?thesis using assms(2) CryptoWord by (simp add: randomInt_def)
next
  case (MathRandom u)
  with assms(1) have u: "0 \<le> u" "u < 1" by (simp_all add: unit_draw_def)
  have pos: "0 < (of_int (hi - lo) :: real)" using assms(2) by simp
  have "0 \<le> u * of_int (hi - lo)" using u pos by simp
  then have lo: "0 \<le> \<lfloor>u * of_int (hi - lo)\<rfloor>" by simp
  have "u * of_int (hi - lo) < of_int (hi - lo)" using u pos by simp
  then have hi: "\<lfloor>u * of_int (hi - lo)\<rfloor> < hi - lo" by (simp add: floor_less_iff)
  from lo hi have "lo \<le> lo + \<lfloor>u * of_int (hi - lo)\<rfloor>" "lo + \<lfloor>u * of_int (hi - lo)\<rfloor> < hi"
    by linarith+
  then show ?thesis using assms(2) MathRandom by (simp add: randomInt_def)
qed

lemma js_get_in: "0 \<le> i \<Longrightarrow> nat i < length xs \<Longrightarrow> js_get xs i = xs ! nat i"
  by (simp add: js_get_def)

lemma js_set_in: "0 \<le> i \<Longrightarrow> nat i < length xs \<Longrightarrow> js_set xs i v = xs[nat i := v]"
  by (simp add: js_set_def)

lemma generate_loop_correct:
  "\<forall>k. unit_draw (rs k) \<Longrightarrow> 0 \<le> i \<Longrightarrow> i \<le> cnt \<Longrightarrow> cnt \<le> int (length available) \<Longrightarrow>
    length result = nat cnt \<Longrightarrow>
    \<exists>res. generate_loop rs cnt i available result = Inr res \<and> length res = nat cnt \<and>
      take (nat i) res = take (nat i) result \<and>
      mset (drop (nat i) res) \<subseteq># mset (drop (nat i) available)"
proof (induction rs cnt i available result rule: generate_loop.induct)
  case (1 rs cnt i available result)
  note rs = 1(2) and i0 = 1(3) and icnt = 1(4) and cntlen = 1(5) and lenres = 1(6)
  show ?case
  proof (cases "i < cnt")
    case True
    then have lt: "i < int (length available)" using cntlen by simp
    from randomInt_range[OF _ lt, of "rs (nat i)"] rs
    obtain r where r: "randomInt i (int (length available)) (rs (nat i)) = Inr r" "i \<le> r"
      "r < int (length available)"
      by blast
    have ni: "nat i < length available" "nat i < length result" "nat i \<le> nat r"
      "nat r < length available" "0 \<le> r" "Suc (nat i) = nat (i + 1)"
      using i0 lt r True lenres by auto
    let ?av = "available[nat r := available ! nat i]"
    let ?res = "result[nat i := available ! nat r]"
    have av: "js_set available r (js_get available i) = ?av"
      using ni i0 by (simp add: js_set_in js_get_in)
    have res: "js_set result i (js_get available r) = ?res"
      using ni i0 by (simp add: js_set_in js_get_in)
    have unf: "generate_loop rs cnt i available result = generate_loop rs cnt (i + 1) ?av ?res"
      using True r(1) av res by (subst generate_loop.simps) simp
    from 1(1)[OF True r(1) rs] i0 True cntlen lenres av res
    obtain out where out: "generate_loop rs cnt (i + 1) ?av ?res = Inr out" "length out = nat cnt"
      "take (nat (i + 1)) out = take (nat (i + 1)) ?res"
      "mset (drop (nat (i + 1)) out) \<subseteq># mset (drop (nat (i + 1)) ?av)"
      by auto
    have lo: "nat i < length out" using out(2) True i0 by simp
    have "take (nat i) out = take (nat i) (take (Suc (nat i)) out)" by simp
    also have "\<dots> = take (nat i) (take (Suc (nat i)) ?res)" using out(3) ni(6) by simp
    also have "\<dots> = take (nat i) result" by simp
    finally have t: "take (nat i) out = take (nat i) result" .
    have "out ! nat i = take (Suc (nat i)) out ! nat i" by simp
    also have "\<dots> = take (Suc (nat i)) ?res ! nat i" using out(3) ni(6) by simp
    also have "\<dots> = available ! nat r" using ni by simp
    finally have oi: "out ! nat i = available ! nat r" .
    have "mset (drop (nat i) out) = add_mset (out ! nat i) (mset (drop (Suc (nat i)) out))"
      using lo by (metis Cons_nth_drop_Suc mset.simps(2))
    also have "\<dots> \<subseteq># add_mset (available ! nat r) (mset (drop (Suc (nat i)) ?av))"
      using out(4) oi ni(6) by simp
    also have "\<dots> = mset (drop (nat i) available)"
      using ni by (intro fy_step) auto
    finally have m: "mset (drop (nat i) out) \<subseteq># mset (drop (nat i) available)" .
    show ?thesis unfolding unf using out(1,2) t m by blast
  next
    case False
    with icnt have "i = cnt" by simp
    then show ?thesis using lenres by (subst generate_loop.simps) simp
  qed
qed

lemma Next_range:
  assumes "lo < hi"
  shows "\<exists>r. Next lo hi raw = Inr r \<and> lo \<le> r \<and> r < hi"
proof -
  have "0 \<le> int raw mod (hi - lo)" "int raw mod (hi - lo) < hi - lo"
    using assms by simp_all
  then have "lo \<le> lo + int raw mod (hi - lo)" "lo + int raw mod (hi - lo) < hi"
    by linarith+
  then show ?thesis using assms by (simp add: Next_def)
qed

lemma Generate_loop_correct:
  "0 \<le> i \<Longrightarrow> i \<le> cnt \<Longrightarrow> cnt \<le> int (length available) \<Longrightarrow> length result = nat cnt \<Longrightarrow>
    \<exists>res. Generate_loop raws cnt i available result = Inr res \<and> length res = nat cnt \<and>
      take (nat i) res = take (nat i) result \<and>
      mset (drop (nat i) res) \<subseteq># mset (drop (nat i) available)"
proof (induction raws cnt i available result rule: Generate_loop.induct)
  case (1 raws cnt i available result)
  note i0 = 1(2) and icnt = 1(3) and cntlen = 1(4) and lenres = 1(5)
  show ?case
  proof (cases "i < cnt")
    case True
    then have lt: "i < int (length available)" using cntlen by simp
    from Next_range[OF lt, of "raws (nat i)"]
    obtain r where r: "Next i (int (length available)) (raws (nat i)) = Inr r" "i \<le> r"
      "r < int (length available)"
      by blast
    have ni: "nat i < length available" "nat i < length result" "nat i \<le> nat r"
      "nat r < length available" "0 \<le> r" "Suc (nat i) = nat (i + 1)"
      using i0 lt r True lenres by auto
    let ?av = "available[nat r := available ! nat i]"
    let ?res = "result[nat i := available ! nat r]"
    have g1: "cs_get available r = Inr (available ! nat r)"
      using ni by (simp add: cs_get_def)
    have s1: "cs_set result i (available ! nat r) = Inr ?res"
      using ni i0 by (simp add: cs_set_def)
    have g2: "cs_get available i = Inr (available ! nat i)"
      using ni i0 by (simp add: cs_get_def)
    have s2: "cs_set available r (available ! nat i) = Inr ?av"
      using ni by (simp add: cs_set_def)
    have unf: "Generate_loop raws cnt i available result = Generate_loop raws cnt (i + 1) ?av ?res"
      using True r(1) g1 s1 g2 s2 by (subst Generate_loop.simps) simp
    from 1(1)[OF True r(1) g1 s1 g2 s2] i0 True cntlen lenres
    obtain out where out: "Generate_loop raws cnt (i + 1) ?av ?res = Inr out" "length out = nat cnt"
      "take (nat (i + 1)) out = take (nat (i + 1)) ?res"
      "mset (drop (nat (i + 1)) out) \<subseteq># mset (drop (nat (i + 1)) ?av)"
      by auto
    have lo: "nat i < length out" using out(2) True i0 by simp
    have "take (nat i) out = take (nat i) (take (Suc (nat i)) out)" by simp
    also have "\<dots> = take (nat i) (take (Suc (nat i)) ?res)" using out(3) ni(6) by simp
    also have "\<dots> = take (nat i) result" by simp
    finally have t: "take (nat i) out = take (nat i) result" .
    have "out ! nat i = take (Suc (nat i)) out ! nat i" by simp
    also have "\<dots> = take (Suc (nat i)) ?res ! nat i" using out(3) ni(6) by simp
    also have "\<dots> = available ! nat r" using ni by simp
    finally have oi: "out ! nat i = available ! nat r" .
    have "mset (drop (nat i) out) = add_mset (out ! nat i) (mset (drop (Suc (nat i)) out))"
      using lo by (metis Cons_nth_drop_Suc mset.simps(2))
    also have "\<dots> \<subseteq># add_mset (available ! nat r) (mset (drop (Suc (nat i)) ?av))"
      using out(4) oi ni(6) by simp
    also have "\<dots> = mset (drop (nat i) available)"
      using ni by (intro fy_step) auto
    finally have m: "mset (drop (nat i) out) \<subseteq># mset (drop (nat i) available)" .
    show ?thesis unfolding unf using out(1,2) t m by blast
  next
    case False
    with icnt have "i = cnt" by simp
    then show ?thesis using lenres by (subst Generate_loop.simps) simp
  qed
qed

lemma pick_loop_correct:
  "\<forall>k. 0 \<le> us k \<and> us k < 1 \<Longrightarrow> 0 \<le> i \<Longrightarrow> i \<le> take_n \<Longrightarrow> take_n \<le> int (length available) \<Longrightarrow>
    \<exists>picked. pick_loop us take_n i available result = result @ picked \<and>
      length picked = nat (take_n - i) \<and>
      mset picked \<subseteq># mset (drop (nat i) available)"
proof (induction us take_n i available result rule: pick_loop.induct)
  case (1 us take_n i available result)
  note us = 1(2) and i0 = 1(3) and itake = 1(4) and takelen = 1(5)
  show ?case
  proof (cases "i < take_n")
    case True
    then have lt: "i < int (length available)" using takelen by simp
    define u where "u = us (length result)"
    define j where "j = i + \<lfloor>u * of_int (int (length available) - i)\<rfloor>"
    have u: "0 \<le> u" "u < 1" using us by (simp_all add: u_def)
    have pos: "0 < (of_int (int (length available) - i) :: real)" using lt by simp
    have "0 \<le> u * of_int (int (length available) - i)" using u pos by simp
    then have f0: "0 \<le> \<lfloor>u * of_int (int (length available) - i)\<rfloor>" by simp
    have "u * of_int (int (length available) - i) < of_int (int (length available) - i)"
      using u pos by simp
    then have f1: "\<lfloor>u * of_int (int (length available) - i)\<rfloor> < int (length available) - i"
      by (simp add: floor_less_iff)
    from f0 f1 have j: "i \<le> j" "j < int (length available)" by (simp_all add: j_def)
    have ni: "nat i < length available" "nat i \<le> nat j" "nat j < length available" "0 \<le> j"
      "Suc (nat i) = nat (i + 1)"
      using i0 lt j by auto
    let ?av = "available[nat j := available ! nat i]"
    let ?res = "result @ [available ! nat j]"
    have av: "js_set available j (js_get available i) = ?av"
      using ni i0 by (simp add: js_set_in js_get_in)
    have gj: "js_get available j = available ! nat j"
      using ni by (simp add: js_get_in)
    have unf: "pick_loop us take_n i available result = pick_loop us take_n (i + 1) ?av ?res"
      using True av gj by (subst pick_loop.simps) (simp add: Let_def j_def u_def)
    from 1(1)[OF True j_def[unfolded u_def] us] i0 True takelen av gj
    obtain picked where p: "pick_loop us take_n (i + 1) ?av ?res = ?res @ picked"
      "length picked = nat (take_n - (i + 1))"
      "mset picked \<subseteq># mset (drop (nat (i + 1)) ?av)"
      by (auto simp: j_def u_def)
    let ?p = "available ! nat j # picked"
    have "mset ?p \<subseteq># add_mset (available ! nat j) (mset (drop (Suc (nat i)) ?av))"
      using p(3) ni(5) by simp
    also have "\<dots> = mset (drop (nat i) available)"
      using ni by (intro fy_step) auto
    finally have m: "mset ?p \<subseteq># mset (drop (nat i) available)" .
    have l: "length ?p = nat (take_n - i)" using p(2) True by simp
    have "pick_loop us take_n i available result = result @ ?p"
      unfolding unf p(1) by simp
    with l m show ?thesis by blast
  next
    case False
    with itake have "i = take_n" by simp
    then show ?thesis by (subst pick_loop.simps) simp
  qed
qed

lemma pick_rounds_correct:
  assumes us: "\<forall>k. 0 \<le> us k \<and> us k < 1" and src: "source \<noteq> []"
  shows "\<exists>res. pick_rounds us source remaining result = Some (result @ res) \<and>
      length res = nat remaining \<and> set res \<subseteq> set source \<and>
      (remaining \<le> int (length source) \<longrightarrow> mset res \<subseteq># mset source)"
proof (induction "nat remaining" arbitrary: remaining result rule: less_induct)
  case less
  show ?case
  proof (cases "remaining > 0")
    case True
    define take_n where "take_n = min remaining (int (length source))"
    have t: "0 < take_n" "take_n \<le> int (length source)" "take_n \<le> remaining"
      using True src by (simp_all add: take_n_def)
    from pick_loop_correct[OF us, of 0 take_n source result] t
    obtain picked where p: "pick_loop us take_n 0 source result = result @ picked"
      "length picked = nat take_n" "mset picked \<subseteq># mset source"
      by auto
    have "nat (remaining - take_n) < nat remaining" using t True by simp
    from less[OF this, of "result @ picked"]
    obtain res where r: "pick_rounds us source (remaining - take_n) (result @ picked) =
        Some ((result @ picked) @ res)"
      "length res = nat (remaining - take_n)" "set res \<subseteq> set source"
      by blast
    have unf: "pick_rounds us source remaining result =
        pick_rounds us source (remaining - take_n) (result @ picked)"
      using True p(1) by (subst pick_rounds.simps) (simp add: Let_def take_n_def)
    have len: "length (picked @ res) = nat remaining"
      using p(2) r(2) t by simp
    have sub: "set (picked @ res) \<subseteq> set source"
      using r(3) set_mset_mono[OF p(3)] by auto
    have ms: "mset (picked @ res) \<subseteq># mset source" if "remaining \<le> int (length source)"
    proof -
      from that have "take_n = remaining" by (simp add: take_n_def)
      with r(2) have "res = []" by simp
      with p(3) show ?thesis by simp
    qed
    show ?thesis unfolding unf r(1) using len sub ms by auto
  next
    case False
    then show ?thesis by (subst pick_rounds.simps) simp
  qed
qed

lemma submset_Some:
  assumes "mset res \<subseteq># mset (map Some V)" "distinct V"
  shows "\<exists>xs. res = map Some xs \<and> distinct xs \<and> set xs \<subseteq> set V"
proof -
  have sub: "set res \<subseteq> Some ` set V" using set_mset_mono[OF assms(1)] by simp
  have d: "distinct res"
    using assms by (intro distinct_of_submset[of res "map Some V"]) (simp_all add: distinct_map)
  let ?xs = "map the res"
  have "map (Some \<circ> the) res = res" using sub by (intro map_idI) auto
  then have eq: "res = map Some ?xs" by simp
  from d eq have "distinct (map Some ?xs)" by metis
  then have "distinct ?xs" by (simp only: distinct_map)
  moreover have "set ?xs \<subseteq> set V" using sub by auto
  ultimately show ?thesis using eq by blast
qed

lemma subset_Some:
  assumes "set res \<subseteq> set (map Some V)"
  shows "\<exists>xs. res = map Some xs \<and> set xs \<subseteq> set V"
proof -
  let ?xs = "map the res"
  have "map (Some \<circ> the) res = res" using assms by (intro map_idI) auto
  then have eq: "res = map Some ?xs" by simp
  moreover have "set ?xs \<subseteq> set V" using assms by auto
  ultimately show ?thesis by blast
qed

section \<open>The layout: lemmas\<close>

lemma DominoWidth_eq: "DominoWidth = 0.5"
  by (simp add: DominoWidth_def PIP_DIAMETER_def PIP_MARGIN_def COLUMNS_PER_DOMINO_def)

lemma DominoHeight_eq: "DominoHeight = 1.7"
  by (simp add: DominoHeight_def PIP_DIAMETER_def PIP_MARGIN_def PIPS_PER_COLUMN_def)

lemmas layout_defs = calculatePageLayout_def dominoesPerRow_of_def dominoesPerColumn_of_def
  printableHeight_def printableWidth_def stripSpacingInches_def heightInches_def marginInches_def
  toInches_def inches_def letterPortrait_def new_DominoFactory_def DominoMargin_def
  DominoWidth_eq DominoHeight_eq

lemmas cs_layout_defs = CalculatePageLayout_def DominoesPerRow_of_def DominoesPerColumn_of_def
  HeightInches_def cs_int_def wrap32_def

lemma floor_64_5: "\<lfloor>(64::real) / 5\<rfloor> = 12"
  by (simp add: floor_eq_iff)

lemma floor_415_73: "\<lfloor>(415::real) / 73\<rfloor> = 5"
  by (simp add: floor_eq_iff)

lemma floor_35_73: "\<lfloor>(35::real) / 73\<rfloor> = 0"
  by (simp add: floor_eq_iff)


section \<open>Pagination: lemmas\<close>

lemma cs_rem_pos: "0 \<le> a \<Longrightarrow> 0 < b \<Longrightarrow> cs_rem a b = Inr (a mod b)"
  by (simp add: cs_rem_def sgn_if)

lemma cs_div_pos: "0 \<le> a \<Longrightarrow> 0 < b \<Longrightarrow> cs_div a b = Inr (a div b)"
  by (simp add: cs_div_def sgn_if)

lemma chunks_Nil: "chunks n [] = []"
  by (subst chunks.simps) simp

lemma chunks_step: "0 < n \<Longrightarrow> xs \<noteq> [] \<Longrightarrow> chunks n xs = take n xs # chunks n (drop n xs)"
  by (subst chunks.simps) simp

lemma chunks_full: "0 < n \<Longrightarrow> Suc k < length (chunks n xs) \<Longrightarrow> length (chunks n xs ! k) = n"
proof (induction n xs arbitrary: k rule: chunks.induct)
  case (1 n xs)
  note n = 1(2) and k = 1(3)
  have xs: "xs \<noteq> []" using k by (auto simp: chunks_Nil)
  note st = chunks_step[OF n xs]
  show ?case
  proof (cases k)
    case 0
    with k st have "chunks n (drop n xs) \<noteq> []" by auto
    then have "drop n xs \<noteq> []" by (auto simp: chunks_Nil)
    then have "n < length xs" by simp
    then show ?thesis using 0 st by simp
  next
    case (Suc j)
    with k st have "Suc j < length (chunks n (drop n xs))" by simp
    from 1(1)[OF _ n this] n xs have "length (chunks n (drop n xs) ! j) = n" by simp
    then show ?thesis using Suc st by simp
  qed
qed

lemma chunks_concat_full:
  "0 < n \<Longrightarrow> \<forall>p\<in>set ps. length p = n \<Longrightarrow> chunks n (concat ps) = ps"
proof (induction ps)
  case Nil
  then show ?case by (simp add: chunks_Nil)
next
  case (Cons p ps)
  then have p: "length p = n" "p \<noteq> []" by auto
  have "chunks n (p @ concat ps) = take n (p @ concat ps) # chunks n (drop n (p @ concat ps))"
    using Cons.prems(1) p by (intro chunks_step) auto
  then show ?case using p Cons by simp
qed

lemma RenderPage_correct:
  "0 < perRow \<Longrightarrow> 0 \<le> cur \<Longrightarrow> 0 \<le> i \<Longrightarrow> i \<le> n \<Longrightarrow> cur + n \<le> int (length vals) \<Longrightarrow>
   length page = nat i \<Longrightarrow> page_ok perRow page \<Longrightarrow>
   \<exists>ts. RenderPage vals perRow cur n i page = Inr ts \<and> length ts = nat n \<and>
        page_ok perRow ts \<and>
        map tile_code ts = map tile_code page @ take (nat (n - i)) (drop (nat (cur + i)) vals)"
proof (induction vals perRow cur n i page rule: RenderPage.induct)
  case (1 vals perRow cur n i page)
  note pr = 1(2) and cur = 1(3) and i0 = 1(4) and i_n = 1(5) and len = 1(6) and lp = 1(7) and ok = 1(8)
  show ?case
  proof (cases "i < n")
    case True
    have idx: "0 \<le> cur + i" "nat (cur + i) < length vals" using cur i0 True len by auto
    let ?v = "vals ! nat (cur + i)"
    let ?t = "\<lparr>tile_code = ?v, tile_ix = i mod perRow, tile_iy = i div perRow\<rparr>"
    have g: "cs_get vals (cur + i) = Inr ?v" using idx by (simp add: cs_get_def)
    have r: "cs_rem i perRow = Inr (i mod perRow)" using i0 pr by (rule cs_rem_pos)
    have d: "cs_div i perRow = Inr (i div perRow)" using i0 pr by (rule cs_div_pos)
    have unf: "RenderPage vals perRow cur n i page = RenderPage vals perRow cur n (i + 1) (page @ [?t])"
      using True g r d by (subst RenderPage.simps) simp
    have lp': "length (page @ [?t]) = nat (i + 1)" using lp i0 by simp
    have ok': "page_ok perRow (page @ [?t])"
      using ok lp i0 by (auto simp: page_ok_def nth_append less_Suc_eq)
    from 1(1)[OF True g r d pr cur _ _ len lp' ok'] i0 True
    obtain ts where ts: "RenderPage vals perRow cur n (i + 1) (page @ [?t]) = Inr ts"
      "length ts = nat n" "page_ok perRow ts"
      "map tile_code ts = map tile_code (page @ [?t]) @ take (nat (n - (i + 1))) (drop (nat (cur + (i + 1))) vals)"
      by auto
    have "take (nat (n - i)) (drop (nat (cur + i)) vals) =
          ?v # take (nat (n - (i + 1))) (drop (nat (cur + (i + 1))) vals)"
    proof -
      have "drop (nat (cur + i)) vals = ?v # drop (Suc (nat (cur + i))) vals"
        using idx by (simp add: Cons_nth_drop_Suc)
      moreover have "Suc (nat (cur + i)) = nat (cur + (i + 1))" using idx by simp
      moreover have "nat (n - i) = Suc (nat (n - (i + 1)))" using True by simp
      ultimately show ?thesis by simp
    qed
    with ts(4) have "map tile_code ts = map tile_code page @ take (nat (n - i)) (drop (nat (cur + i)) vals)"
      by simp
    with ts(1,2,3) show ?thesis unfolding unf by blast
  next
    case False
    with i_n have "i = n" by simp
    then show ?thesis using lp ok by (subst RenderPage.simps) simp
  qed
qed

lemma ceiling_step:
  assumes "0 < p" "0 < r"
  shows "\<lceil>real_of_int r / real_of_int p\<rceil> = 1 + \<lceil>real_of_int (r - min r p) / real_of_int p\<rceil>"
proof (cases "r \<le> p")
  case True
  then have "\<lceil>real_of_int r / real_of_int p\<rceil> = 1"
    using assms by (simp add: ceiling_eq_iff)
  with True show ?thesis by simp
next
  case False
  then have "real_of_int (r - min r p) / real_of_int p = real_of_int r / real_of_int p - 1"
    using assms by (simp add: field_simps)
  then show ?thesis by simp
qed

lemma GeneratePdf_loop_correct:
  assumes pr: "0 < perRow" and pp: "0 < perPage"
  shows "0 \<le> remaining \<Longrightarrow> cur = int (length vals) - remaining \<Longrightarrow> 0 \<le> cur \<Longrightarrow>
    \<exists>pages. GeneratePdf_loop vals perRow perPage remaining cur doc = Some (Inr (doc @ pages)) \<and>
      map (map tile_code) pages = chunks (nat perPage) (drop (nat cur) vals) \<and>
      concat (map (map tile_code) pages) = drop (nat cur) vals \<and>
      (\<forall>p\<in>set pages. page_ok perRow p \<and> p \<noteq> [] \<and> int (length p) \<le> perPage) \<and>
      int (length pages) = \<lceil>real_of_int remaining / real_of_int perPage\<rceil>"
proof (induction "nat remaining" arbitrary: remaining cur doc rule: less_induct)
  case less
  note rem0 = less.prems(1) and cur = less.prems(2) and cur0 = less.prems(3)
  show ?case
  proof (cases "remaining > 0")
    case True
    define n where "n = min remaining perPage"
    have n: "0 < n" "n \<le> remaining" "n \<le> perPage" using True pp by (simp_all add: n_def)
    have "page_ok perRow []" by (simp add: page_ok_def)
    from RenderPage_correct[OF pr cur0, of 0 n vals "[]"] n cur this
    obtain page where page: "RenderPage vals perRow cur n 0 [] = Inr page" "length page = nat n"
      "page_ok perRow page" "map tile_code page = take (nat n) (drop (nat cur) vals)"
      by auto
    have unf: "GeneratePdf_loop vals perRow perPage remaining cur doc =
        GeneratePdf_loop vals perRow perPage (remaining - n) (cur + n) (doc @ [page])"
      using True page(1) by (subst GeneratePdf_loop.simps) (simp add: Let_def n_def)
    have "nat (remaining - n) < nat remaining" using n True by simp
    from less.hyps[OF this, of "cur + n" "doc @ [page]"] n cur cur0
    obtain pages where pages:
      "GeneratePdf_loop vals perRow perPage (remaining - n) (cur + n) (doc @ [page]) =
         Some (Inr ((doc @ [page]) @ pages))"
      "map (map tile_code) pages = chunks (nat perPage) (drop (nat (cur + n)) vals)"
      "concat (map (map tile_code) pages) = drop (nat (cur + n)) vals"
      "\<forall>p\<in>set pages. page_ok perRow p \<and> p \<noteq> [] \<and> int (length p) \<le> perPage"
      "int (length pages) = \<lceil>real_of_int (remaining - n) / real_of_int perPage\<rceil>"
      by auto
    have dd: "drop (nat (cur + n)) vals = drop (nat n) (drop (nat cur) vals)"
      using cur0 n by (simp add: nat_add_distrib add.commute)
    have c: "concat (map (map tile_code) (page # pages)) = drop (nat cur) vals"
    proof -
      have "concat (map (map tile_code) (page # pages)) =
          take (nat n) (drop (nat cur) vals) @ drop (nat n) (drop (nat cur) vals)"
        using page(4) pages(3) dd by simp
      then show ?thesis by (simp only: append_take_drop_id)
    qed
    have ch: "map (map tile_code) (page # pages) = chunks (nat perPage) (drop (nat cur) vals)"
    proof -
      let ?D = "drop (nat cur) vals"
      have lenD: "length ?D = nat remaining" using cur cur0 rem0 by simp
      have ne: "?D \<noteq> []" using lenD True by auto
      have t: "take (nat perPage) ?D = take (nat n) ?D"
        using lenD by (cases "remaining \<le> perPage") (simp_all add: n_def min_def)
      have dr: "drop (nat perPage) ?D = drop (nat n) ?D"
        using lenD by (cases "remaining \<le> perPage") (simp_all add: n_def min_def)
      have "chunks (nat perPage) ?D = take (nat perPage) ?D # chunks (nat perPage) (drop (nat perPage) ?D)"
        using pp ne by (intro chunks_step) auto
      then show ?thesis using page(4) pages(2) dd t dr by simp
    qed
    have a: "\<forall>p\<in>set (page # pages). page_ok perRow p \<and> p \<noteq> [] \<and> int (length p) \<le> perPage"
      using pages(4) page(2,3) n by auto
    have l: "int (length (page # pages)) = \<lceil>real_of_int remaining / real_of_int perPage\<rceil>"
      using pages(5) ceiling_step[OF pp True] by (simp add: n_def)
    have eq: "(doc @ [page]) @ pages = doc @ (page # pages)" by simp
    show ?thesis unfolding unf pages(1) eq using c ch a l by blast
  next
    case False
    with rem0 have z: "remaining = 0" by simp
    then have "nat cur = length vals" using cur by simp
    then show ?thesis using z by (subst GeneratePdf_loop.simps) (simp add: chunks_Nil)
  qed
qed

lemma js_rem_pos: "0 \<le> a \<Longrightarrow> 0 < b \<Longrightarrow> js_rem a b = Num (of_int (a mod b))"
  by (simp add: js_rem_def sgn_if)

lemma js_floor_div_pos: "0 < b \<Longrightarrow> js_floor_div a b = Num (of_int (a div b))"
  by (simp add: js_floor_div_def floor_divide_of_int_eq)

lemma page_loop_correct:
  "0 < perRow \<Longrightarrow> 0 \<le> start \<Longrightarrow> 0 \<le> i \<Longrightarrow> i \<le> perPage \<Longrightarrow>
   start + perPage \<le> int (length vals) \<Longrightarrow> length page = nat i \<Longrightarrow> js_page_ok perRow page \<Longrightarrow>
   length (page_loop vals perRow perPage start i page) = nat perPage \<and>
   js_page_ok perRow (page_loop vals perRow perPage start i page) \<and>
   map js_code (page_loop vals perRow perPage start i page) =
     map js_code page @ take (nat (perPage - i)) (drop (nat (start + i)) vals)"
proof (induction vals perRow perPage start i page rule: page_loop.induct)
  case (1 vals perRow perPage start i page)
  note pr = 1(2) and st = 1(3) and i0 = 1(4) and i_n = 1(5) and len = 1(6) and lp = 1(7) and ok = 1(8)
  show ?case
  proof (cases "i < perPage")
    case True
    have idx: "0 \<le> start + i" "nat (start + i) < length vals" using st i0 True len by auto
    let ?v = "vals ! nat (start + i)"
    let ?t = "\<lparr>js_code = ?v, js_ix = Num (of_int (i mod perRow)), js_iy = Num (of_int (i div perRow))\<rparr>"
    have t: "\<lparr>js_code = js_get vals (start + i), js_ix = js_rem i perRow,
              js_iy = js_floor_div i perRow\<rparr> = ?t"
      using idx i0 pr by (simp add: js_get_def js_rem_pos js_floor_div_pos)
    have unf: "page_loop vals perRow perPage start i page =
        page_loop vals perRow perPage start (i + 1) (page @ [?t])"
      using True by (subst page_loop.simps) (simp add: t)
    have lp': "length (page @ [?t]) = nat (i + 1)" using lp i0 by simp
    have ok': "js_page_ok perRow (page @ [?t])"
      using ok lp i0 by (auto simp: js_page_ok_def nth_append less_Suc_eq)
    from 1(1)[OF True pr st _ _ len, unfolded t, OF _ _ lp' ok'] i0 True
    have ih: "length (page_loop vals perRow perPage start (i + 1) (page @ [?t])) = nat perPage"
      "js_page_ok perRow (page_loop vals perRow perPage start (i + 1) (page @ [?t]))"
      "map js_code (page_loop vals perRow perPage start (i + 1) (page @ [?t])) =
         map js_code (page @ [?t]) @ take (nat (perPage - (i + 1))) (drop (nat (start + (i + 1))) vals)"
      by auto
    have "take (nat (perPage - i)) (drop (nat (start + i)) vals) =
          ?v # take (nat (perPage - (i + 1))) (drop (nat (start + (i + 1))) vals)"
    proof -
      have "drop (nat (start + i)) vals = ?v # drop (Suc (nat (start + i))) vals"
        using idx by (simp add: Cons_nth_drop_Suc)
      moreover have "Suc (nat (start + i)) = nat (start + (i + 1))" using idx by simp
      moreover have "nat (perPage - i) = Suc (nat (perPage - (i + 1)))" using True by simp
      ultimately show ?thesis by simp
    qed
    with ih(3) have "map js_code (page_loop vals perRow perPage start (i + 1) (page @ [?t])) =
        map js_code page @ take (nat (perPage - i)) (drop (nat (start + i)) vals)"
      by simp
    with ih(1,2) show ?thesis unfolding unf by blast
  next
    case False
    with i_n have "i = perPage" by simp
    then show ?thesis using lp ok by (subst (1 2 3) page_loop.simps) simp
  qed
qed

lemma pages_loop_correct:
  "0 < perRow \<Longrightarrow> 0 \<le> perPage \<Longrightarrow> int (length vals) = pageCount * perPage \<Longrightarrow>
   0 \<le> pageIndex \<Longrightarrow> pageIndex \<le> pageCount \<Longrightarrow>
   \<exists>pages. pages_loop vals pageCount perRow perPage pageIndex doc = doc @ pages \<and>
      int (length pages) = pageCount - pageIndex \<and>
      concat (map (map js_code) pages) = drop (nat (pageIndex * perPage)) vals \<and>
      (\<forall>p\<in>set pages. js_page_ok perRow p \<and> int (length p) = perPage)"
proof (induction vals pageCount perRow perPage pageIndex doc rule: pages_loop.induct)
  case (1 vals pageCount perRow perPage pageIndex doc)
  note pr = 1(2) and pp = 1(3) and len = 1(4) and p0 = 1(5) and pc = 1(6)
  show ?case
  proof (cases "pageIndex < pageCount")
    case True
    define start where "start = pageIndex * perPage"
    define page where "page = page_loop vals perRow perPage start 0 []"
    have st: "0 \<le> start" using p0 pp by (simp add: start_def)
    have "(pageIndex + 1) * perPage \<le> pageCount * perPage"
      using True pp by (intro mult_right_mono) auto
    then have fit: "start + perPage \<le> int (length vals)"
      using len by (simp add: start_def algebra_simps)
    have "js_page_ok perRow []" by (simp add: js_page_ok_def)
    from page_loop_correct[OF pr st _ pp fit _ this]
    have page: "length page = nat perPage" "js_page_ok perRow page"
      "map js_code page = take (nat perPage) (drop (nat start) vals)"
      by (simp_all add: page_def)
    have unf: "pages_loop vals pageCount perRow perPage pageIndex doc =
        pages_loop vals pageCount perRow perPage (pageIndex + 1) (doc @ [page])"
      using True by (subst pages_loop.simps) (simp add: page_def start_def)
    from 1(1)[OF True pr pp len] p0 True
    obtain pages where pages:
      "pages_loop vals pageCount perRow perPage (pageIndex + 1) (doc @ [page]) = (doc @ [page]) @ pages"
      "int (length pages) = pageCount - (pageIndex + 1)"
      "concat (map (map js_code) pages) = drop (nat ((pageIndex + 1) * perPage)) vals"
      "\<forall>p\<in>set pages. js_page_ok perRow p \<and> int (length p) = perPage"
      unfolding page_def start_def by (metis add_increasing2 zero_less_one_class.zero_le_one zless_imp_add1_zle)
    have "nat ((pageIndex + 1) * perPage) = nat perPage + nat start"
      using st pp by (simp add: start_def algebra_simps nat_add_distrib)
    then have "drop (nat ((pageIndex + 1) * perPage)) vals = drop (nat perPage) (drop (nat start) vals)"
      by simp
    then have "concat (map (map js_code) (page # pages)) =
        take (nat perPage) (drop (nat start) vals) @ drop (nat perPage) (drop (nat start) vals)"
      using page(3) pages(3) by simp
    then have c: "concat (map (map js_code) (page # pages)) = drop (nat (pageIndex * perPage)) vals"
      by (simp only: append_take_drop_id start_def)
    have a: "\<forall>p\<in>set (page # pages). js_page_ok perRow p \<and> int (length p) = perPage"
      using pages(4) page(1,2) pp by auto
    have l: "int (length (page # pages)) = pageCount - pageIndex"
      using pages(2) by simp
    show ?thesis unfolding unf pages(1) using c a l
      by (intro exI[of _ "page # pages"]) simp
  next
    case False
    with pc have e: "pageIndex = pageCount" by simp
    then have "nat (pageIndex * perPage) = length vals" using len by simp
    then show ?thesis using e by (subst pages_loop.simps) simp
  qed
qed

lemma GeneratePdf_loop_paginates:
  assumes pr: "0 < perRow" and pp: "0 < perPage"
  shows "\<exists>pages. GeneratePdf_loop vals perRow perPage (int (length vals)) 0 [] = Some (Inr pages) \<and>
           paginates perRow perPage vals pages"
proof -
  from GeneratePdf_loop_correct[OF pr pp, of "int (length vals)" 0 vals "[]"]
  obtain pages where pages:
    "GeneratePdf_loop vals perRow perPage (int (length vals)) 0 [] = Some (Inr pages)"
    "map (map tile_code) pages = chunks (nat perPage) vals"
    "concat (map (map tile_code) pages) = vals"
    "\<forall>p\<in>set pages. page_ok perRow p \<and> p \<noteq> [] \<and> int (length p) \<le> perPage"
    "int (length pages) = \<lceil>real_of_int (int (length vals)) / real_of_int perPage\<rceil>"
    by auto
  have full: "int (length (pages ! k)) = perPage" if "Suc k < length pages" for k
  proof -
    have "Suc k < length (chunks (nat perPage) vals)"
      using that pages(2) by (metis length_map)
    then have "length (chunks (nat perPage) vals ! k) = nat perPage"
      using pp by (intro chunks_full) auto
    moreover have "chunks (nat perPage) vals ! k = map tile_code (pages ! k)"
      using that pages(2) by (metis Suc_lessD nth_map)
    ultimately show ?thesis using pp by simp
  qed
  have "paginates perRow perPage vals pages"
    unfolding paginates_def using pages(2,3,4,5) full by simp
  with pages(1) show ?thesis by blast
qed

lemma pages_loop_paginates:
  assumes pr: "0 < perRow" and pp: "0 < perPage" and pc: "0 \<le> pageCount"
    and len: "int (length jvals) = pageCount * perPage"
  shows "js_paginates perRow perPage jvals (pages_loop jvals pageCount perRow perPage 0 []) \<and>
         int (length (pages_loop jvals pageCount perRow perPage 0 [])) = pageCount"
proof -
  from pages_loop_correct[OF pr _ len _ pc, of "[]"] pp
  obtain ps where ps: "pages_loop jvals pageCount perRow perPage 0 [] = ps"
    "int (length ps) = pageCount" "concat (map (map js_code) ps) = jvals"
    "\<forall>p\<in>set ps. js_page_ok perRow p \<and> int (length p) = perPage"
    by auto
  have "real (length jvals) / real_of_int perPage = real_of_int pageCount"
  proof -
    have "real (length jvals) = real_of_int (pageCount * perPage)"
      using len by (metis of_int_of_nat_eq)
    then show ?thesis using pp by simp
  qed
  then have cl: "\<lceil>real (length jvals) / real_of_int perPage\<rceil> = pageCount" by simp
  have "\<forall>p\<in>set (map (map js_code) ps). length p = nat perPage"
    using ps(4) by auto
  then have "chunks (nat perPage) (concat (map (map js_code) ps)) = map (map js_code) ps"
    using pp by (intro chunks_concat_full) auto
  then have ch: "map (map js_code) ps = chunks (nat perPage) jvals"
    using ps(3) by simp
  show ?thesis
    unfolding js_paginates_def ps(1) using ch ps(2,3,4) cl by simp
qed

lemma floor_75_73: "\<lfloor>(75::real) / 73\<rfloor> = 1"
  by (simp add: floor_eq_iff)

lemma low_page_perPage: "GeneratePdf_perPage ovf0 low_page 3 2 = 2"
  by (simp add: GeneratePdf_perPage_def low_page_def new_DominoFactory_def inches_def toInches_def
      DominoMargin_def DominoHeight_def PIP_DIAMETER_def PIP_MARGIN_def PIPS_PER_COLUMN_def
      cs_int_def wrap32_def floor_75_73 signed_take_bit_int_eq_self)


section \<open>The arrays of the module: lemmas\<close>

text \<open>
  No call writes an array that was there before the call: the loops write only the two
  arrays they are given, which the functions have allocated themselves. So every call
  returns, also \<^verbatim>\<open>pickRandomDominoes\<close>, whose source keeps its positive length.
\<close>

lemma generate_loop_in_frame:
  "x \<noteq> available \<Longrightarrow> x \<noteq> result \<Longrightarrow>
   arrays (snd (generate_loop_in rs cnt i available result s)) x = arrays s x \<and>
   next_ref (snd (generate_loop_in rs cnt i available result s)) = next_ref s"
proof (induction rs cnt i available result s rule: generate_loop_in.induct)
  case (1 rs cnt i available result s)
  show ?case
  proof (cases "i < cnt")
    case False
    then show ?thesis by (simp add: generate_loop_in.simps)
  next
    case True
    show ?thesis
    proof (cases "randomInt i (int (length (arrays s available))) (rs (nat i))")
      case (Inl e)
      then show ?thesis using True by (subst (1 2) generate_loop_in.simps) simp
    next
      case (Inr randomIndex)
      define s1 where "s1 = store_set s result i (store_get s available randomIndex)"
      define s2 where "s2 = store_set s1 available randomIndex (store_get s1 available i)"
      have unf: "generate_loop_in rs cnt i available result s =
                 generate_loop_in rs cnt (i + 1) available result s2"
        using True Inr by (subst generate_loop_in.simps) (simp add: Let_def s1_def s2_def)
      have s2: "arrays s2 x = arrays s x" "next_ref s2 = next_ref s"
        using "1.prems" by (simp_all add: s1_def s2_def store_set_def)
      from "1.IH"[OF True Inr s1_def s2_def "1.prems"] s2 unf show ?thesis by simp
    qed
  qed
qed

lemma generateRandomUniqueDominoes_in_frame:
  assumes "x < next_ref s"
  shows "arrays (snd (generateRandomUniqueDominoes_in rs cnt s)) x = arrays s x \<and>
         next_ref s \<le> next_ref (snd (generateRandomUniqueDominoes_in rs cnt s))"
proof -
  define s1 where "s1 = snd (alloc s (arrays s VALID_DOMINOES_ref))"
  define s2 where "s2 = snd (alloc s1 (replicate (nat cnt) None))"
  have a1: "alloc s (arrays s VALID_DOMINOES_ref) = (next_ref s, s1)"
    by (simp add: s1_def alloc_def)
  have a2: "alloc s1 (replicate (nat cnt) None) = (next_ref s1, s2)"
    by (simp add: s2_def alloc_def)
  have n1: "next_ref s1 = Suc (next_ref s)" "arrays s1 x = arrays s x"
    using assms by (simp_all add: s1_def alloc_def)
  have n2: "next_ref s2 = Suc (next_ref s1)" "arrays s2 x = arrays s1 x"
    using assms n1 by (simp_all add: s2_def alloc_def)
  have fr: "arrays (snd (generate_loop_in rs cnt 0 (next_ref s) (next_ref s1) s2)) x = arrays s2 x \<and>
        next_ref (snd (generate_loop_in rs cnt 0 (next_ref s) (next_ref s1) s2)) = next_ref s2"
    using assms n1 by (intro generate_loop_in_frame) auto
  show ?thesis
    using fr n1 n2
    by (auto simp add: generateRandomUniqueDominoes_in_def a1 a2 Let_def split: prod.splits option.splits)
qed

lemma pick_loop_in_frame:
  "x \<noteq> available \<Longrightarrow> x \<noteq> result \<Longrightarrow>
   arrays (pick_loop_in us take_n i available result s) x = arrays s x \<and>
   next_ref (pick_loop_in us take_n i available result s) = next_ref s"
proof (induction us take_n i available result s rule: pick_loop_in.induct)
  case (1 us take_n i available result s)
  show ?case
  proof (cases "i < take_n")
    case False
    then show ?thesis by (simp add: pick_loop_in.simps)
  next
    case True
    define j where "j = i + \<lfloor>us (length (arrays s result)) * of_int (int (length (arrays s available)) - i)\<rfloor>"
    define s1 where "s1 = store_push s result (store_get s available j)"
    define s2 where "s2 = store_set s1 available j (store_get s1 available i)"
    have unf: "pick_loop_in us take_n i available result s =
               pick_loop_in us take_n (i + 1) available result s2"
      using True by (subst pick_loop_in.simps) (simp add: Let_def j_def s1_def s2_def)
    have s2: "arrays s2 x = arrays s x" "next_ref s2 = next_ref s"
      using "1.prems" by (simp_all add: s1_def s2_def store_set_def store_push_def)
    from "1.IH"[OF True j_def s1_def s2_def "1.prems"] s2 unf show ?thesis by simp
  qed
qed

lemma pick_rounds_in_frame:
  assumes "arrays s source \<noteq> []" "source < next_ref s" "result < next_ref s" "source \<noteq> result"
  shows "\<exists>s'. pick_rounds_in us source remaining result s = Some s' \<and>
           (\<forall>x<next_ref s. x \<noteq> result \<longrightarrow> arrays s' x = arrays s x) \<and>
           next_ref s \<le> next_ref s'"
  using assms
proof (induction "nat remaining" arbitrary: remaining s rule: less_induct)
  case less
  show ?case
  proof (cases "remaining > 0")
    case False
    then show ?thesis by (subst pick_rounds_in.simps) simp
  next
    case True
    define take_n where "take_n = min remaining (int (length (arrays s source)))"
    define s1 where "s1 = snd (alloc s (arrays s source))"
    define s2 where "s2 = pick_loop_in us take_n 0 (next_ref s) result s1"
    have a1: "alloc s (arrays s source) = (next_ref s, s1)"
      by (simp add: s1_def alloc_def)
    have tk: "0 < take_n" using True less.prems(1) by (simp add: take_n_def)
    have unf: "pick_rounds_in us source remaining result s =
               pick_rounds_in us source (remaining - take_n) result s2"
      using True by (subst pick_rounds_in.simps) (simp add: Let_def a1 take_n_def s2_def)
    have n1: "next_ref s1 = Suc (next_ref s)" "\<forall>x<next_ref s. arrays s1 x = arrays s x"
      by (simp_all add: s1_def alloc_def)
    have fr: "arrays s2 x = arrays s1 x \<and> next_ref s2 = next_ref s1"
      if "x < next_ref s" "x \<noteq> result" for x
      unfolding s2_def using that by (intro pick_loop_in_frame) auto
    have n2: "next_ref s2 = Suc (next_ref s)"
      using fr[of source] less.prems n1 by simp
    have src: "arrays s2 source = arrays s source"
      using fr[of source] less.prems n1 by simp
    have "\<exists>s'. pick_rounds_in us source (remaining - take_n) result s2 = Some s' \<and>
           (\<forall>x<next_ref s2. x \<noteq> result \<longrightarrow> arrays s' x = arrays s2 x) \<and>
           next_ref s2 \<le> next_ref s'"
      using tk True less.prems src n2 by (intro less.hyps) auto
    then obtain s' where s': "pick_rounds_in us source (remaining - take_n) result s2 = Some s'"
      "\<forall>x<next_ref s2. x \<noteq> result \<longrightarrow> arrays s' x = arrays s2 x" "next_ref s2 \<le> next_ref s'"
      by blast
    have "\<forall>x<next_ref s. x \<noteq> result \<longrightarrow> arrays s' x = arrays s x"
      using s'(2) fr n1 n2 by auto
    moreover have "next_ref s \<le> next_ref s'" using s'(3) n2 by simp
    ultimately show ?thesis using unf s'(1) by simp
  qed
qed

lemma pickRandomDominoes_in_frame:
  assumes "source < next_ref s"
  shows "\<exists>r s'. pickRandomDominoes_in us source cnt s = Some (r, s') \<and>
           (\<forall>x<next_ref s. arrays s' x = arrays s x) \<and> next_ref s \<le> next_ref s'"
proof (cases "length (arrays s source) = 0 \<or> cnt \<le> 0")
  case True
  then show ?thesis
    by (auto simp add: pickRandomDominoes_in_def alloc_def Let_def)
next
  case False
  define s1 where "s1 = snd (alloc s [])"
  have a1: "alloc s [] = (next_ref s, s1)" by (simp add: s1_def alloc_def)
  have n1: "next_ref s1 = Suc (next_ref s)" "\<forall>x<next_ref s. arrays s1 x = arrays s x"
    by (simp_all add: s1_def alloc_def)
  have "\<exists>s'. pick_rounds_in us source cnt (next_ref s) s1 = Some s' \<and>
           (\<forall>x<next_ref s1. x \<noteq> next_ref s \<longrightarrow> arrays s' x = arrays s1 x) \<and>
           next_ref s1 \<le> next_ref s'"
    using False assms n1 by (intro pick_rounds_in_frame) auto
  then obtain s' where s': "pick_rounds_in us source cnt (next_ref s) s1 = Some s'"
    "\<forall>x<next_ref s1. x \<noteq> next_ref s \<longrightarrow> arrays s' x = arrays s1 x" "next_ref s1 \<le> next_ref s'"
    by blast
  have "\<forall>x<next_ref s. arrays s' x = arrays s x" using s'(2) n1 by auto
  moreover have "next_ref s \<le> next_ref s'" using s'(3) n1 by simp
  moreover have "pickRandomDominoes_in us source cnt s = Some (Inr (next_ref s), s')"
    using False s'(1) by (simp add: pickRandomDominoes_in_def a1 Let_def)
  ultimately show ?thesis by blast
qed

lemma exec_frame:
  assumes "VALID_DOMINOES_ref < next_ref s"
  shows "\<exists>s'. exec c s = Some s' \<and> (\<forall>x<next_ref s. arrays s' x = arrays s x) \<and>
           next_ref s \<le> next_ref s'"
proof (cases c)
  case Call_getValidDominoes
  then show ?thesis by (simp add: getValidDominoes_def)
next
  case (Call_generateRandomUniqueDominoes rs cnt)
  then show ?thesis
    using generateRandomUniqueDominoes_in_frame[of _ s rs cnt]
      generateRandomUniqueDominoes_in_frame[OF assms, of rs cnt] by simp
next
  case (Call_pickRandomDominoes us cnt)
  from pickRandomDominoes_in_frame[OF assms, of us cnt]
  obtain r s' where "pickRandomDominoes_in us VALID_DOMINOES_ref cnt s = Some (r, s')"
    "\<forall>x<next_ref s. arrays s' x = arrays s x" "next_ref s \<le> next_ref s'" by blast
  then show ?thesis using Call_pickRandomDominoes by (simp add: getValidDominoes_def)
qed

lemma run_frame:
  assumes "VALID_DOMINOES_ref < next_ref s"
  shows "\<exists>s'. run calls s = Some s' \<and> (\<forall>x<next_ref s. arrays s' x = arrays s x) \<and>
           next_ref s \<le> next_ref s'"
  using assms
proof (induction calls arbitrary: s)
  case Nil
  then show ?case by simp
next
  case (Cons c calls)
  from exec_frame[OF Cons.prems, of c]
  obtain s1 where s1: "exec c s = Some s1" "\<forall>x<next_ref s. arrays s1 x = arrays s x"
    "next_ref s \<le> next_ref s1" by blast
  have "VALID_DOMINOES_ref < next_ref s1" using Cons.prems s1(3) by simp
  from Cons.IH[OF this]
  obtain s' where s': "run calls s1 = Some s'" "\<forall>x<next_ref s1. arrays s' x = arrays s1 x"
    "next_ref s1 \<le> next_ref s'" by blast
  have "\<forall>x<next_ref s. arrays s' x = arrays s x" using s1(2,3) s'(2) by auto
  moreover have "next_ref s \<le> next_ref s'" using s1(3) s'(3) by simp
  ultimately show ?case using s1(1) s'(1) by simp
qed

lemma module_loaded_valid:
  "VALID_DOMINOES_ref < next_ref module_loaded"
  "arrays module_loaded VALID_DOMINOES_ref = map Some VALID_DOMINOES"
  by (simp_all add: module_loaded_def VALID_DOMINOES_ref_def REVERSE8_ref_def)

section \<open>The enumerator: claims\<close>

lemma first_code_member: "33279 \<in> set buildValidDominoesList"
proof -
  have "kept 63" by code_simp
  moreover have "value_ts 63 = 33279" by code_simp
  moreover have "(63::int) \<in> set [0..4095]" by simp
  ultimately have "33279 \<in> value_ts ` {d \<in> set [0..4095]. kept d}"
    by (intro image_eqI[of _ _ 63]) simp_all
  then show ?thesis by (simp add: buildValidDominoesList_eq)
qed

text \<open>
  Claim C1. Every code in the list returned by \<^verbatim>\<open>buildValidDominoesList\<close> (TypeScript)
  and by \<^verbatim>\<open>BuildValidDominoesList\<close> (C\#) satisfies the three legality invariants: bits 0
  and 7 of both columns are set, exactly six of the twelve payload bits are set, and the
  bit reversal of column 0 is not column 1. The C\# enumerator returns a list, it raises
  no exception.
\<close>

theorem enumerated_codes_legal:
  "(\<forall>v\<in>set buildValidDominoesList.
      frame_bits_set v \<and> payload_count v = 6 \<and> bit_reverse8 (column0 v) \<noteq> column1 v) \<and>
   (\<exists>l. BuildValidDominoesList = Inr l \<and>
      (\<forall>v\<in>set l.
         frame_bits_set v \<and> payload_count v = 6 \<and> bit_reverse8 (column0 v) \<noteq> column1 v))"
proof -
  have "\<forall>v\<in>set buildValidDominoesList.
      frame_bits_set v \<and> payload_count v = 6 \<and> bit_reverse8 (column0 v) \<noteq> column1 v"
    using legal_buildValidDominoesList by (simp add: legal_def)
  then show ?thesis by (simp add: BuildValidDominoesList_eq)
qed

theorem enumerated_codes_legal_witness:
  "33279 \<in> set buildValidDominoesList \<and>
   frame_bits_set 33279 \<and> payload_count 33279 = 6 \<and> bit_reverse8 (column0 33279) \<noteq> column1 33279"
  using enumerated_codes_legal first_code_member by blast

text \<open>
  Claim C9. The TypeScript enumerator and the C\# enumerator compute the same ordered list
  of codes: the C\# enumerator raises no exception, and the list it returns is the list of
  the TypeScript enumerator (the same length, the same element at every index).
\<close>

theorem enumerators_agree: "BuildValidDominoesList = Inr buildValidDominoesList"
  by (rule BuildValidDominoesList_eq)







section \<open>The unique sampler: claims\<close>

lemma distinct_VALID_DOMINOES: "distinct VALID_DOMINOES"
  by (simp add: VALID_DOMINOES_def distinct_buildValidDominoesList)

lemma length_VALID_DOMINOES: "length VALID_DOMINOES = 904"
  by (simp add: VALID_DOMINOES_def length_buildValidDominoesList)

lemma generate_ok:
  assumes "\<forall>k. unit_draw (rs k)" "0 \<le> n" "n \<le> int (length VALID_DOMINOES)"
  shows "\<exists>xs. generateRandomUniqueDominoes rs n = Inr (map Some xs) \<and> int (length xs) = n \<and>
           distinct xs \<and> set xs \<subseteq> set VALID_DOMINOES"
proof -
  from generate_loop_correct[OF assms(1), of 0 n "map Some VALID_DOMINOES" "replicate (nat n) None"] assms(2,3)
  obtain res where res: "generate_loop rs n 0 (map Some VALID_DOMINOES) (replicate (nat n) None) = Inr res"
    "length res = nat n" "mset res \<subseteq># mset (map Some VALID_DOMINOES)"
    by auto
  from submset_Some[OF res(3) distinct_VALID_DOMINOES]
  obtain xs where xs: "res = map Some xs" "distinct xs" "set xs \<subseteq> set VALID_DOMINOES" by blast
  have "generateRandomUniqueDominoes rs n = Inr res"
    using assms(2,3) res(1) by (simp add: generateRandomUniqueDominoes_def Let_def)
  moreover have "int (length xs) = n" using res(2) xs(1) assms(2) by simp
  ultimately show ?thesis using xs by blast
qed

lemma Generate_ok:
  assumes "0 \<le> n" "n \<le> int (length VALID_DOMINOES)"
  shows "\<exists>xs. GenerateRandomUniqueDominoes VALID_DOMINOES raws n = Inr xs \<and> int (length xs) = n \<and>
           distinct xs \<and> set xs \<subseteq> set VALID_DOMINOES"
proof -
  from Generate_loop_correct[of 0 n VALID_DOMINOES "replicate (nat n) 0" raws] assms
  obtain res where res: "Generate_loop raws n 0 VALID_DOMINOES (replicate (nat n) 0) = Inr res"
    "length res = nat n" "mset res \<subseteq># mset VALID_DOMINOES"
    by auto
  have "GenerateRandomUniqueDominoes VALID_DOMINOES raws n = Inr res"
    using assms res(1) by (simp add: GenerateRandomUniqueDominoes_def)
  moreover have "int (length res) = n" using res(2) assms(1) by simp
  moreover have "distinct res" using res(3) distinct_VALID_DOMINOES by (rule distinct_of_submset)
  moreover have "set res \<subseteq> set VALID_DOMINOES" using set_mset_mono[OF res(3)] by simp
  ultimately show ?thesis by blast
qed

lemma pick_total:
  assumes "\<forall>k. 0 \<le> us k \<and> us k < 1" "0 \<le> n"
  shows "\<exists>xs. pickRandomDominoes us (map Some VALID_DOMINOES) n = Some (Inr (map Some xs)) \<and>
           int (length xs) = n \<and> set xs \<subseteq> set VALID_DOMINOES \<and>
           (n \<le> int (length VALID_DOMINOES) \<longrightarrow> distinct xs)"
proof (cases "n = 0")
  case True
  then show ?thesis by (simp add: pickRandomDominoes_def length_VALID_DOMINOES)
next
  case False
  have ne: "map Some VALID_DOMINOES \<noteq> []" using length_VALID_DOMINOES by auto
  from pick_rounds_correct[OF assms(1) ne, of n "[]"]
  obtain res where res: "pick_rounds us (map Some VALID_DOMINOES) n [] = Some res"
    "length res = nat n" "set res \<subseteq> set (map Some VALID_DOMINOES)"
    "n \<le> int (length VALID_DOMINOES) \<longrightarrow> mset res \<subseteq># mset (map Some VALID_DOMINOES)"
    by auto
  from subset_Some[OF res(3)]
  obtain xs where xs: "res = map Some xs" "set xs \<subseteq> set VALID_DOMINOES" by blast
  have d: "distinct xs" if "n \<le> int (length VALID_DOMINOES)"
  proof -
    from res(4) that have "mset res \<subseteq># mset (map Some VALID_DOMINOES)" by simp
    then have "distinct res"
      using distinct_VALID_DOMINOES
      by (intro distinct_of_submset[of res "map Some VALID_DOMINOES"]) (simp_all add: distinct_map)
    then show ?thesis using xs(1) by (simp add: distinct_map)
  qed
  have "pickRandomDominoes us (map Some VALID_DOMINOES) n = Some (Inr res)"
    using False assms(2) res(1) by (simp add: pickRandomDominoes_def length_VALID_DOMINOES)
  moreover have "int (length xs) = n" using res(2) xs(1) assms(2) by simp
  ultimately show ?thesis using xs d by blast
qed

lemma too_many_not_distinct:
  assumes "set xs \<subseteq> set V" "length V < length xs"
  shows "\<not> distinct xs"
proof
  assume "distinct xs"
  then have "length xs = card (set xs)" by (simp add: distinct_card)
  also have "\<dots> \<le> card (set V)" using assms(1) by (simp add: card_mono)
  also have "\<dots> \<le> length V" by (rule card_length)
  finally show False using assms(2) by simp
qed

text \<open>
  Claim C2, as stated, fails for \<^verbatim>\<open>pickRandomDominoes\<close>: asked for 905 values, one more
  than there are valid codes, it returns a list and no error (its caller says: unique
  until the list is exhausted, then repeats).
\<close>

theorem pick_beyond_capacity_returns:
  "int (length VALID_DOMINOES) < 905 \<and>
   map_option isl (pickRandomDominoes zero_draws (map Some VALID_DOMINOES) 905) = Some False \<and>
   map_option (length \<circ> projr) (pickRandomDominoes zero_draws (map Some VALID_DOMINOES) 905) = Some 905"
proof -
  have "\<forall>k. 0 \<le> zero_draws k \<and> zero_draws k < 1" by (simp add: zero_draws_def)
  from pick_total[OF this, of 905]
  obtain xs where "pickRandomDominoes zero_draws (map Some VALID_DOMINOES) 905 = Some (Inr (map Some xs))"
    "int (length xs) = 905" by auto
  then show ?thesis by (simp add: length_VALID_DOMINOES)
qed

text \<open>
  Claim C2, amended. With a source of randomness that keeps its contract
  (\<^verbatim>\<open>Math.random()\<close> in \<open>[0, 1)\<close>), for every count \<open>n\<close> with \<open>0 \<le> n \<le>\<close> the size of the
  valid-code set, \<^verbatim>\<open>generateRandomUniqueDominoes\<close> (TypeScript and C\#) and
  \<^verbatim>\<open>pickRandomDominoes\<close> return exactly \<open>n\<close> pairwise distinct values of the valid-code
  set. For every \<open>n\<close> greater than the size, \<^verbatim>\<open>generateRandomUniqueDominoes\<close> fails with
  its insufficient-capacity error; \<^verbatim>\<open>pickRandomDominoes\<close> does not fail: it returns \<open>n\<close>
  values of the valid-code set, with repetitions.
\<close>

theorem unique_sampler:
  assumes "\<forall>k. unit_draw (rs k)" and "\<forall>k. 0 \<le> us k \<and> us k < 1"
  shows
    "BuildValidDominoesList = Inr VALID_DOMINOES \<and>
     (0 \<le> n \<and> n \<le> int (length VALID_DOMINOES) \<longrightarrow>
        (\<exists>xs. generateRandomUniqueDominoes rs n = Inr (map Some xs) \<and> int (length xs) = n \<and>
              distinct xs \<and> set xs \<subseteq> set VALID_DOMINOES) \<and>
        (\<exists>xs. GenerateRandomUniqueDominoes VALID_DOMINOES raws n = Inr xs \<and> int (length xs) = n \<and>
              distinct xs \<and> set xs \<subseteq> set VALID_DOMINOES) \<and>
        (\<exists>xs. pickRandomDominoes us (map Some VALID_DOMINOES) n = Some (Inr (map Some xs)) \<and>
              int (length xs) = n \<and> distinct xs \<and> set xs \<subseteq> set VALID_DOMINOES)) \<and>
     (int (length VALID_DOMINOES) < n \<longrightarrow>
        generateRandomUniqueDominoes rs n = Inl (InsufficientDominoes n (length VALID_DOMINOES)) \<and>
        GenerateRandomUniqueDominoes VALID_DOMINOES raws n = Inl InvalidOperationException \<and>
        (\<exists>xs. pickRandomDominoes us (map Some VALID_DOMINOES) n = Some (Inr (map Some xs)) \<and>
              int (length xs) = n \<and> set xs \<subseteq> set VALID_DOMINOES \<and> \<not> distinct xs))"
proof -
  have a: "BuildValidDominoesList = Inr VALID_DOMINOES"
    by (simp add: VALID_DOMINOES_def BuildValidDominoesList_eq)
  have b: "(\<exists>xs. generateRandomUniqueDominoes rs n = Inr (map Some xs) \<and> int (length xs) = n \<and>
              distinct xs \<and> set xs \<subseteq> set VALID_DOMINOES) \<and>
        (\<exists>xs. GenerateRandomUniqueDominoes VALID_DOMINOES raws n = Inr xs \<and> int (length xs) = n \<and>
              distinct xs \<and> set xs \<subseteq> set VALID_DOMINOES) \<and>
        (\<exists>xs. pickRandomDominoes us (map Some VALID_DOMINOES) n = Some (Inr (map Some xs)) \<and>
              int (length xs) = n \<and> distinct xs \<and> set xs \<subseteq> set VALID_DOMINOES)"
    if "0 \<le> n \<and> n \<le> int (length VALID_DOMINOES)"
    using generate_ok[OF assms(1), of n] Generate_ok[of n raws] pick_total[OF assms(2), of n] that
    by blast
  have c: "generateRandomUniqueDominoes rs n = Inl (InsufficientDominoes n (length VALID_DOMINOES)) \<and>
        GenerateRandomUniqueDominoes VALID_DOMINOES raws n = Inl InvalidOperationException \<and>
        (\<exists>xs. pickRandomDominoes us (map Some VALID_DOMINOES) n = Some (Inr (map Some xs)) \<and>
              int (length xs) = n \<and> set xs \<subseteq> set VALID_DOMINOES \<and> \<not> distinct xs)"
    if big: "int (length VALID_DOMINOES) < n"
  proof -
    have g: "generateRandomUniqueDominoes rs n = Inl (InsufficientDominoes n (length VALID_DOMINOES))"
      using big by (simp add: generateRandomUniqueDominoes_def Let_def)
    have G: "GenerateRandomUniqueDominoes VALID_DOMINOES raws n = Inl InvalidOperationException"
      using big by (simp add: GenerateRandomUniqueDominoes_def)
    from big have "0 \<le> n" by simp
    from pick_total[OF assms(2) this]
    obtain xs where xs: "pickRandomDominoes us (map Some VALID_DOMINOES) n = Some (Inr (map Some xs))"
      "int (length xs) = n" "set xs \<subseteq> set VALID_DOMINOES" by blast
    have "length VALID_DOMINOES < length xs" using xs(2) big by simp
    from too_many_not_distinct[OF xs(3) this] xs g G show ?thesis by blast
  qed
  from a b c show ?thesis by blast
qed

theorem unique_sampler_witness:
  "(0::int) \<le> 2 \<and> 2 \<le> int (length VALID_DOMINOES) \<and>
   (\<exists>xs. generateRandomUniqueDominoes crypto_zero 2 = Inr (map Some xs) \<and> int (length xs) = 2 \<and>
         distinct xs \<and> set xs \<subseteq> set VALID_DOMINOES) \<and>
   (\<exists>xs. GenerateRandomUniqueDominoes VALID_DOMINOES zero_raws 2 = Inr xs \<and> int (length xs) = 2 \<and>
         distinct xs \<and> set xs \<subseteq> set VALID_DOMINOES) \<and>
   (\<exists>xs. pickRandomDominoes zero_draws (map Some VALID_DOMINOES) 2 = Some (Inr (map Some xs)) \<and>
         int (length xs) = 2 \<and> distinct xs \<and> set xs \<subseteq> set VALID_DOMINOES) \<and>
   int (length VALID_DOMINOES) < 1000 \<and>
   generateRandomUniqueDominoes crypto_zero 1000 = Inl (InsufficientDominoes 1000 (length VALID_DOMINOES)) \<and>
   GenerateRandomUniqueDominoes VALID_DOMINOES zero_raws 1000 = Inl InvalidOperationException"
proof -
  have r: "\<forall>k. unit_draw (crypto_zero k)" by (simp add: unit_draw_def crypto_zero_def)
  have u: "\<forall>k. 0 \<le> zero_draws k \<and> zero_draws k < 1" by (simp add: zero_draws_def)
  have s: "(0::int) \<le> 2 \<and> 2 \<le> int (length VALID_DOMINOES)" by (simp add: length_VALID_DOMINOES)
  have b: "int (length VALID_DOMINOES) < 1000" by (simp add: length_VALID_DOMINOES)
  from unique_sampler[OF r u, of 2 zero_raws] s unique_sampler[OF r u, of 1000 zero_raws] b
  show ?thesis by blast
qed

section \<open>The layout: claims\<close>

text \<open>
  Claim C5. For the letter page of 8.5 by 11 inches with a margin of 0.25 and a spacing of
  0.125 (the defaults of the constructor), with tiles 0.5 wide and 1.7 high, the layout has
  12 tiles in a row, 5 in a column and 60 on a page.
\<close>

theorem letter_layout:
  "calculatePageLayout (new_DominoFactory None None) = \<lparr>dominoesPerRow = Num 12, dominoesPerPage = Num 60\<rparr> \<and>
   dominoesPerColumn_of (new_DominoFactory None None) = Num 5 \<and>
   new_DominoFactory None None =
     \<lparr>stripSpacing = inches 0.125,
      pageSetup = \<lparr>width = inches 8.5, height = Some (inches 11), margin = Some (inches 0.25)\<rparr>\<rparr> \<and>
   DominoWidth = 0.5 \<and> DominoHeight = 1.7"
  by (simp add: layout_defs floor_64_5 floor_415_73)

text \<open>
  Claim C3, as stated, fails: on a page 0.5 inches wide (margin 0.25, spacing 0.125) no
  tile fits in a row, and both implementations return a layout with 0 tiles in a row and
  0 tiles on a page. Neither source has a failure for a layout that is not feasible.
\<close>

theorem zero_tiles_returned_silently:
  "dominoesPerRow_of narrow_page = Num 0 \<and>
   calculatePageLayout narrow_page = \<lparr>dominoesPerRow = Num 0, dominoesPerPage = Num 0\<rparr> \<and>
   CalculatePageLayout ovf0 narrow_page = (0, 0)"
  by (simp add: narrow_page_def layout_defs cs_layout_defs floor_415_73)

text \<open>
  Claim C3, amended. The layout computation never fails. When the tiles in a row or the
  tiles in a column come out as 0, TypeScript returns a layout whose tiles per page are 0
  if both counts are finite and \<open>NaN\<close> if the other count is not (no height, or a spacing
  that cancels the tile width); C\# returns 0 tiles per page.
\<close>

theorem zero_capacity_layout:
  "(dominoesPerRow_of f = Num 0 \<or> dominoesPerColumn_of f = Num 0 \<longrightarrow>
      calculatePageLayout f =
        \<lparr>dominoesPerRow = dominoesPerRow_of f,
         dominoesPerPage =
           (if (\<exists>r. dominoesPerRow_of f = Num r) \<and> (\<exists>c. dominoesPerColumn_of f = Num c)
            then Num 0 else NaN)\<rparr>) \<and>
   (DominoesPerRow_of ovf f = 0 \<or> DominoesPerColumn_of ovf f = 0 \<longrightarrow>
      CalculatePageLayout ovf f = (DominoesPerRow_of ovf f, 0))"
proof -
  have ts: "num_mul c r = (if (\<exists>x. r = Num x) \<and> (\<exists>y. c = Num y) then Num 0 else NaN)"
    if "r = Num 0 \<or> c = Num 0" for c r
    using that by (cases c; cases r) auto
  show ?thesis
    by (auto simp: calculatePageLayout_def CalculatePageLayout_def wrap32_def ts)
qed

theorem zero_capacity_layout_witness:
  "dominoesPerColumn_of short_page = Num 0 \<and>
   calculatePageLayout short_page = \<lparr>dominoesPerRow = Num 12, dominoesPerPage = Num 0\<rparr> \<and>
   DominoesPerColumn_of ovf0 short_page = 0 \<and>
   CalculatePageLayout ovf0 short_page = (12, 0)"
proof -
  have c: "dominoesPerColumn_of short_page = Num 0"
    by (simp add: short_page_def layout_defs floor_35_73)
  have r: "dominoesPerRow_of short_page = Num 12"
    by (simp add: short_page_def layout_defs floor_64_5)
  have c': "DominoesPerColumn_of ovf0 short_page = 0"
    by (simp add: short_page_def layout_defs cs_layout_defs floor_35_73)
  have r': "DominoesPerRow_of ovf0 short_page = 12"
    by (simp add: short_page_def layout_defs cs_layout_defs floor_64_5)
  from zero_capacity_layout[of short_page ovf0] c r c' r' show ?thesis
    by simp
qed



text \<open>
  Claim C8, as stated, fails for a spacing below minus the tile width: with a spacing of
  -1.5 inches and no margin, a width of 1 inch gives -1 tiles in a row and a width of 2
  inches gives -2.
\<close>

theorem doubling_counterexample:
  "dominoesPerRow_of \<lparr>stripSpacing = inches (- 1.5),
      pageSetup = \<lparr>width = inches 1, height = None, margin = None\<rparr>\<rparr> = Num (- 1) \<and>
   dominoesPerRow_of \<lparr>stripSpacing = inches (- 1.5),
      pageSetup = \<lparr>width = inches (2 * 1), height = None, margin = None\<rparr>\<rparr> = Num (- 2) \<and>
   \<not> num_ge
      (dominoesPerRow_of \<lparr>stripSpacing = inches (- 1.5),
         pageSetup = \<lparr>width = inches (2 * 1), height = None, margin = None\<rparr>\<rparr>)
      (dominoesPerRow_of \<lparr>stripSpacing = inches (- 1.5),
         pageSetup = \<lparr>width = inches 1, height = None, margin = None\<rparr>\<rparr>)"
  by (simp add: layout_defs)

text \<open>
  Claim C8, amended. When tile width + spacing is positive, doubling a width \<open>W \<ge> 0\<close>
  (same unit, margin, height and spacing) never decreases the tiles in a row.
\<close>

theorem doubling_width_monotone:
  assumes "0 < DominoWidth + toInches s" and "0 \<le> W"
  shows "num_ge
    (dominoesPerRow_of \<lparr>stripSpacing = s,
       pageSetup = \<lparr>width = \<lparr>mvalue = 2 * W, munit = u\<rparr>, height = h, margin = m\<rparr>\<rparr>)
    (dominoesPerRow_of \<lparr>stripSpacing = s,
       pageSetup = \<lparr>width = \<lparr>mvalue = W, munit = u\<rparr>, height = h, margin = m\<rparr>\<rparr>)"
proof -
  define d where "d = DominoWidth + toInches s"
  define mg where "mg = (case m of Some x \<Rightarrow> toInches x | None \<Rightarrow> 0)"
  define w where "w = toInches \<lparr>mvalue = W, munit = u\<rparr>"
  have d: "0 < d" using assms(1) by (simp add: d_def)
  have w: "0 \<le> w" using assms(2) by (simp add: w_def toInches_def MILLIMETERS_PER_INCH_def)
  have w2: "toInches \<lparr>mvalue = 2 * W, munit = u\<rparr> = 2 * w"
    by (simp add: w_def toInches_def)
  have "(w - 2 * mg) / d \<le> (2 * w - 2 * mg) / d"
    using d w by (intro divide_right_mono) auto
  then have "\<lfloor>(w - 2 * mg) / d\<rfloor> \<le> \<lfloor>(2 * w - 2 * mg) / d\<rfloor>"
    by (rule floor_mono)
  then show ?thesis
    using d
    by (simp add: dominoesPerRow_of_def printableWidth_def stripSpacingInches_def marginInches_def
        w2 d_def[symmetric] mg_def[symmetric] w_def[symmetric])
qed

theorem doubling_width_monotone_witness:
  "0 < DominoWidth + toInches (inches 0.125) \<and> (0::real) \<le> 8.5 \<and>
   num_ge
    (dominoesPerRow_of \<lparr>stripSpacing = inches 0.125,
       pageSetup = \<lparr>width = \<lparr>mvalue = 2 * 8.5, munit = Inches\<rparr>, height = None, margin = None\<rparr>\<rparr>)
    (dominoesPerRow_of \<lparr>stripSpacing = inches 0.125,
       pageSetup = \<lparr>width = \<lparr>mvalue = 8.5, munit = Inches\<rparr>, height = None, margin = None\<rparr>\<rparr>)"
proof -
  have a: "0 < DominoWidth + toInches (inches 0.125)"
    by (simp add: DominoWidth_eq toInches_def inches_def)
  have b: "(0::real) \<le> 8.5" by simp
  from doubling_width_monotone[OF a b, of Inches None None] a b show ?thesis
    by simp
qed

section \<open>Pagination: claims\<close>

text \<open>
  A run of \<^verbatim>\<open>GeneratePdf\<close> on the low page, whose height gives one row of tiles: three
  codes at two tiles per row make a page of two tiles and a page of one.
\<close>

lemma GeneratePdf_low_page:
  "GeneratePdf ovf0 low_page [10, 20, 30] 2 =
     Some (Inr [[\<lparr>tile_code = 10, tile_ix = 0, tile_iy = 0\<rparr>, \<lparr>tile_code = 20, tile_ix = 1, tile_iy = 0\<rparr>],
                [\<lparr>tile_code = 30, tile_ix = 0, tile_iy = 0\<rparr>]])"
  by (simp add: GeneratePdf_def low_page_perPage GeneratePdf_loop.simps RenderPage.simps
      cs_get_def cs_rem_def cs_div_def)

text \<open>
  Claim C4. For tiles per row and tiles per page of at least 1, pagination cuts the input
  into consecutive pages of tiles-per-page codes: the codes of the pages are the chunks of
  the input sequence, so every input code is emitted exactly once and in the order of the
  input, every page but the last holds exactly tiles-per-page tiles, the last one holds the
  rest (at least one tile, at most tiles-per-page), tile \<open>i\<close> of a page gets column
  \<open>i mod tiles_per_row\<close> and row \<open>i div tiles_per_row\<close>, and the number of pages is the
  ceiling of total / tiles per page.

  For C\# this holds of the loop of \<^verbatim>\<open>GeneratePdf\<close> on any sequence, and of
  \<^verbatim>\<open>GeneratePdf\<close> itself with the tiles per page that it computes from the page (or the
  number of all tiles, for a page without height): it returns and raises no exception.
  For TypeScript it holds of the loop of \<^verbatim>\<open>generateLetterPagesPdfBlob\<close> on
  \<open>pageCount \<times> tiles_per_page\<close> values, and of the function on the values it draws with
  \<^verbatim>\<open>pickRandomDominoes\<close> from the valid codes: all \<open>pageCount\<close> pages are full.
\<close>

theorem pagination:
  assumes "1 \<le> perRow" and "1 \<le> perPage"
  shows
    "(\<exists>pages. GeneratePdf_loop vals perRow perPage (int (length vals)) 0 [] = Some (Inr pages) \<and>
        paginates perRow perPage vals pages) \<and>
     (GeneratePdf_perPage ovf f (int (length vals)) perRow = perPage \<longrightarrow>
        (\<exists>pages. GeneratePdf ovf f vals perRow = Some (Inr pages) \<and>
           paginates perRow perPage vals pages)) \<and>
     (0 \<le> pageCount \<and> int (length jvals) = pageCount * perPage \<longrightarrow>
        js_paginates perRow perPage jvals (pages_loop jvals pageCount perRow perPage 0 []) \<and>
        int (length (pages_loop jvals pageCount perRow perPage 0 [])) = pageCount) \<and>
     (0 \<le> pageCount \<and> (\<forall>k. 0 \<le> us k \<and> us k < 1) \<longrightarrow>
        (\<exists>drawn pages.
           pickRandomDominoes us (map Some VALID_DOMINOES) (pageCount * perPage) = Some (Inr drawn) \<and>
           letterPages us (map Some VALID_DOMINOES) pageCount perRow perPage = Some (Inr pages) \<and>
           int (length drawn) = pageCount * perPage \<and>
           int (length pages) = pageCount \<and>
           js_paginates perRow perPage drawn pages))"
proof -
  have pr: "0 < perRow" and pp: "0 < perPage" using assms by simp_all
  note cs = GeneratePdf_loop_paginates[OF pr pp, of vals]
  have gp: "\<exists>pages. GeneratePdf ovf f vals perRow = Some (Inr pages) \<and>
           paginates perRow perPage vals pages"
    if "GeneratePdf_perPage ovf f (int (length vals)) perRow = perPage"
    using cs that by (simp add: GeneratePdf_def Let_def)
  note ts = pages_loop_paginates[OF pr pp]
  have lp: "\<exists>drawn pages.
           pickRandomDominoes us (map Some VALID_DOMINOES) (pageCount * perPage) = Some (Inr drawn) \<and>
           letterPages us (map Some VALID_DOMINOES) pageCount perRow perPage = Some (Inr pages) \<and>
           int (length drawn) = pageCount * perPage \<and>
           int (length pages) = pageCount \<and>
           js_paginates perRow perPage drawn pages"
    if pc: "0 \<le> pageCount" and us: "\<forall>k. 0 \<le> us k \<and> us k < 1"
  proof -
    have "0 \<le> pageCount * perPage" using pc pp by simp
    from pick_total[OF us this]
    obtain xs where xs:
      "pickRandomDominoes us (map Some VALID_DOMINOES) (pageCount * perPage) = Some (Inr (map Some xs))"
      "int (length xs) = pageCount * perPage"
      by blast
    have len: "int (length (map Some xs)) = pageCount * perPage" using xs(2) by simp
    have lpg: "letterPages us (map Some VALID_DOMINOES) pageCount perRow perPage =
        Some (Inr (pages_loop (map Some xs) pageCount perRow perPage 0 []))"
      using xs(1) by (simp add: letterPages_def Let_def)
    from ts[OF pc len] xs(1) lpg len show ?thesis by blast
  qed
  from cs gp ts lp show ?thesis by blast
qed

theorem pagination_witness:
  "(1::int) \<le> 2 \<and>
   GeneratePdf_perPage ovf0 low_page (int (length [10, 20, 30 :: int])) 2 = 2 \<and>
   (\<exists>pages. GeneratePdf ovf0 low_page [10, 20, 30] 2 = Some (Inr pages) \<and>
      paginates 2 2 [10, 20, 30] pages) \<and>
   (0::int) \<le> 2 \<and> int (length [Some 10, Some 20, Some 30, Some (40::int)]) = 2 * 2 \<and>
   js_paginates 2 2 [Some 10, Some 20, Some 30, Some 40]
     (pages_loop [Some 10, Some 20, Some 30, Some 40] 2 2 2 0 []) \<and>
   (\<exists>drawn pages.
      pickRandomDominoes zero_draws (map Some VALID_DOMINOES) (2 * 2) = Some (Inr drawn) \<and>
      letterPages zero_draws (map Some VALID_DOMINOES) 2 2 2 = Some (Inr pages) \<and>
      int (length pages) = 2 \<and> js_paginates 2 2 drawn pages)"
proof -
  have a: "(1::int) \<le> 2" by simp
  have b: "(0::int) \<le> 2 \<and> int (length [Some 10, Some 20, Some 30, Some (40::int)]) = 2 * 2" by simp
  have c: "GeneratePdf_perPage ovf0 low_page (int (length [10, 20, 30 :: int])) 2 = 2"
    using low_page_perPage by simp
  have d: "(0::int) \<le> 2 \<and> (\<forall>k. 0 \<le> zero_draws k \<and> zero_draws k < 1)"
    by (simp add: zero_draws_def)
  from pagination[OF a a, of "[10, 20, 30]" ovf0 low_page 2 "[Some 10, Some 20, Some 30, Some 40]" zero_draws]
    a b c d
  show ?thesis by blast
qed

section \<open>The arrays of the module: claims\<close>

text \<open>
  Claim C7. The list of valid codes that \<^verbatim>\<open>buildValidDominoesList\<close> returns has no
  duplicate values. It is computed once, when the module is loaded, and
  \<^verbatim>\<open>getValidDominoes()\<close> returns the array that holds it: after any sequence of calls of
  \<^verbatim>\<open>getValidDominoes\<close>, \<^verbatim>\<open>generateRandomUniqueDominoes\<close> and \<^verbatim>\<open>pickRandomDominoes\<close> on the
  array of valid codes (every such sequence returns), \<^verbatim>\<open>getValidDominoes()\<close> returns the
  same reference as after loading, does not change the store, and the array behind the
  reference still holds the same codes in the same order.
\<close>

theorem valid_codes_stable:
  "distinct buildValidDominoesList \<and>
   arrays module_loaded (fst (getValidDominoes module_loaded)) = map Some buildValidDominoesList \<and>
   (\<exists>s. run calls module_loaded = Some s \<and>
        getValidDominoes s = (fst (getValidDominoes module_loaded), s) \<and>
        arrays s (fst (getValidDominoes s)) = map Some buildValidDominoesList)"
proof -
  from run_frame[OF module_loaded_valid(1), of calls]
  obtain s where s: "run calls module_loaded = Some s"
    "\<forall>x<next_ref module_loaded. arrays s x = arrays module_loaded x" by blast
  have "arrays s VALID_DOMINOES_ref = map Some buildValidDominoesList"
    using s(2) module_loaded_valid by (simp add: VALID_DOMINOES_def)
  then show ?thesis
    using s(1) module_loaded_valid(2) distinct_buildValidDominoesList
    by (simp add: getValidDominoes_def VALID_DOMINOES_def)
qed

theorem valid_codes_stable_witness:
  "distinct buildValidDominoesList \<and>
   arrays module_loaded (fst (getValidDominoes module_loaded)) = map Some buildValidDominoesList \<and>
   (\<exists>s. run [Call_pickRandomDominoes zero_draws 905, Call_generateRandomUniqueDominoes crypto_zero 3,
            Call_getValidDominoes] module_loaded = Some s \<and>
        getValidDominoes s = (fst (getValidDominoes module_loaded), s) \<and>
        arrays s (fst (getValidDominoes s)) = map Some buildValidDominoesList)"
  by (rule valid_codes_stable)

end
